theory Spec2Isabelle
  imports Complex_Main "HOL-Library.Multiset" "HOL-Library.Product_Lexorder"
begin

section \<open>Python values and library calls used by \<open>voronoi_diagram.py\<close>\<close>

text \<open>
  The program is one Python module. Its numbers are Python integers (modelled as \<open>int\<close>
  and \<open>nat\<close>) and double precision floats. A float is modelled as the real number it
  stands for, and every float operation as the exact operation followed by the rounding
  \<open>rnd\<close> of its result. The rounding is an argument of every definition that computes
  with floats, so a theorem about every \<open>rnd\<close> is a theorem about IEEE round-to-nearest;
  where a theorem needs a property of the rounding, the property is a hypothesis
  (\<open>rounding\<close> below). The coordinates of the boundary lines are the one exception: they
  are only built, never compared or truncated, and are kept as exact products. Colours
  are the strings the code stores (\<open>'#rrggbb'\<close>).

  Random draws are arguments: each call of the random library is a value handed to the
  model, so a theorem about all draws covers every run.
\<close>

datatype error = ValueError | ZeroDivisionError | IndexError | KeyError

type_synonym rgb = "real \<times> real \<times> real"

text \<open>\<open>int(x)\<close> on a float truncates towards zero.\<close>

definition py_int :: "real \<Rightarrow> int" where
  "py_int x = (if 0 \<le> x then \<lfloor>x\<rfloor> else \<lceil>x\<rceil>)"

text \<open>\<open>xs[:n]\<close>: a negative \<open>n\<close> counts from the end.\<close>

definition py_take :: "int \<Rightarrow> 'a list \<Rightarrow> 'a list" where
  "py_take n xs = (if 0 \<le> n then take (nat n) xs else take (length xs - nat (- n)) xs)"

text \<open>\<open>'{:02x}'.format(n)\<close>: lower-case hexadecimal, zero-padded to width two; the
  sign of a negative number counts for the width.\<close>

definition hexdigit :: "nat \<Rightarrow> char" where
  "hexdigit d = ''0123456789abcdef'' ! d"

fun hexstr :: "nat \<Rightarrow> string" where
  "hexstr n = (if n < 16 then [hexdigit n] else hexstr (n div 16) @ [hexdigit (n mod 16)])"

declare hexstr.simps [simp del]

definition fmt02x :: "int \<Rightarrow> string" where
  "fmt02x n =
     (if n < 0 then CHR ''-'' # hexstr (nat (- n))
      else (let s = hexstr (nat n) in if length s < 2 then CHR ''0'' # s else s))"

text \<open>Lines 53-55: the hex string of a candidate.\<close>

definition hex_color :: "(real \<Rightarrow> real) \<Rightarrow> rgb \<Rightarrow> string" where
  "hex_color rnd c = (case c of (r, g, b) \<Rightarrow>
     CHR ''#'' # fmt02x (py_int (rnd (r * 255))) @ fmt02x (py_int (rnd (g * 255)))
       @ fmt02x (py_int (rnd (b * 255))))"

text \<open>
  \<open>matplotlib.colors.to_rgb\<close> on a string of the form \<open>#rrggbb\<close> (hex digits of either
  case): the three bytes divided by 255. These are the only strings the program itself
  passes to it (the entries of its pool); any other string is rejected here (\<open>None\<close>, a
  \<open>ValueError\<close> at the call). Where a statement is about every colour the library
  accepts, the library function is an argument (\<open>conv\<close> below).
\<close>

definition hexval :: "char \<Rightarrow> nat option" where
  "hexval = map_of
     [(CHR ''0'', 0), (CHR ''1'', 1), (CHR ''2'', 2), (CHR ''3'', 3), (CHR ''4'', 4),
      (CHR ''5'', 5), (CHR ''6'', 6), (CHR ''7'', 7), (CHR ''8'', 8), (CHR ''9'', 9),
      (CHR ''a'', 10), (CHR ''b'', 11), (CHR ''c'', 12), (CHR ''d'', 13), (CHR ''e'', 14),
      (CHR ''f'', 15),
      (CHR ''A'', 10), (CHR ''B'', 11), (CHR ''C'', 12), (CHR ''D'', 13), (CHR ''E'', 14),
      (CHR ''F'', 15)]"

definition hexpair :: "char \<Rightarrow> char \<Rightarrow> nat option" where
  "hexpair a b = (case hexval a of None \<Rightarrow> None
     | Some x \<Rightarrow> (case hexval b of None \<Rightarrow> None | Some y \<Rightarrow> Some (16 * x + y)))"

fun to_rgb :: "(real \<Rightarrow> real) \<Rightarrow> string \<Rightarrow> rgb option" where
  "to_rgb rnd [h, r1, r2, g1, g2, b1, b2] =
     (if h = CHR ''#'' then
        (case hexpair r1 r2 of None \<Rightarrow> None | Some r \<Rightarrow>
        (case hexpair g1 g2 of None \<Rightarrow> None | Some g \<Rightarrow>
        (case hexpair b1 b2 of None \<Rightarrow> None | Some b \<Rightarrow>
           Some (rnd (real r / 255), rnd (real g / 255), rnd (real b / 255)))))
      else None)"
| "to_rgb rnd _ = None"

section \<open>\<open>generate_unique_color\<close> (lines 47-67)\<close>

text \<open>Line 48: the literal \<open>0.1\<close> is the float nearest to one tenth.\<close>

definition threshold :: "(real \<Rightarrow> real) \<Rightarrow> real" where
  "threshold rnd = rnd (1 / 10)"

definition max_attempts :: nat where
  "max_attempts = 100"

definition fallback_gray :: string where
  "fallback_gray = ''#808080''"

text \<open>Line 60: \<open>np.sqrt(np.sum((rgb - existing_rgb) ** 2))\<close>: three differences, three
  squares, the sum taken from left to right, and the root, each one rounded.\<close>

definition color_dist :: "(real \<Rightarrow> real) \<Rightarrow> rgb \<Rightarrow> rgb \<Rightarrow> real" where
  "color_dist rnd a b = (case a of (r1, g1, b1) \<Rightarrow> case b of (r2, g2, b2) \<Rightarrow>
     rnd (sqrt (rnd (rnd (rnd ((rnd (r1 - r2))\<^sup>2) + rnd ((rnd (g1 - g2))\<^sup>2))
                 + rnd ((rnd (b1 - b2))\<^sup>2)))))"

text \<open>Lines 57-63: the inner loop over the existing colours, left at the first one that
  is too close. \<open>conv\<close> is \<open>matplotlib.colors.to_rgb\<close>, \<open>None\<close> where it raises
  \<open>ValueError\<close>.\<close>

fun too_close :: "(real \<Rightarrow> real) \<Rightarrow> ('c \<Rightarrow> rgb option) \<Rightarrow> rgb \<Rightarrow> 'c list \<Rightarrow> error + bool" where
  "too_close rnd conv c [] = Inr False"
| "too_close rnd conv c (e # es) =
     (case conv e of
        None \<Rightarrow> Inl ValueError
      | Some er \<Rightarrow> if color_dist rnd c er < threshold rnd then Inr True
                   else too_close rnd conv c es)"

text \<open>
  Lines 51-67: the attempts. \<open>rand\<close> is the stream of \<open>np.random.rand(3)\<close> draws and
  \<open>pos\<close> the number of draws already taken; the result is the colour and the new
  position. The first argument counts the attempts that are left.
\<close>

fun attempt_loop ::
  "(real \<Rightarrow> real) \<Rightarrow> ('c \<Rightarrow> rgb option) \<Rightarrow> nat \<Rightarrow> (nat \<Rightarrow> rgb) \<Rightarrow> nat \<Rightarrow> 'c list
     \<Rightarrow> error + (string \<times> nat)" where
  "attempt_loop rnd conv 0 rand pos existing = Inr (fallback_gray, pos)"
| "attempt_loop rnd conv (Suc n) rand pos existing =
     (let c = rand pos; hex = hex_color rnd c in
      case too_close rnd conv c existing of
        Inl e \<Rightarrow> Inl e
      | Inr True \<Rightarrow> attempt_loop rnd conv n rand (Suc pos) existing
      | Inr False \<Rightarrow> Inr (hex, Suc pos))"

definition generate_unique_color ::
  "(real \<Rightarrow> real) \<Rightarrow> ('c \<Rightarrow> rgb option) \<Rightarrow> (nat \<Rightarrow> rgb) \<Rightarrow> nat \<Rightarrow> 'c list
     \<Rightarrow> error + (string \<times> nat)" where
  "generate_unique_color rnd conv rand pos existing_colors =
     attempt_loop rnd conv max_attempts rand pos existing_colors"

section \<open>The colour pool (lines 89-92)\<close>

text \<open>The loop \<open>for _ in range(num_colors - 2)\<close>, appending one colour per round. The
  existing colours are the pool's own strings, read by \<open>to_rgb\<close>.\<close>

fun pool_loop ::
  "(real \<Rightarrow> real) \<Rightarrow> nat \<Rightarrow> (nat \<Rightarrow> rgb) \<Rightarrow> nat \<Rightarrow> string list \<Rightarrow> error + (string list \<times> nat)" where
  "pool_loop rnd 0 rand pos pool = Inr (pool, pos)"
| "pool_loop rnd (Suc n) rand pos pool =
     (case generate_unique_color rnd (to_rgb rnd) rand pos pool of
        Inl e \<Rightarrow> Inl e
      | Inr (c, pos') \<Rightarrow> pool_loop rnd n rand pos' (pool @ [c]))"

definition build_color_pool :: "(real \<Rightarrow> real) \<Rightarrow> (nat \<Rightarrow> rgb) \<Rightarrow> int \<Rightarrow> error + string list" where
  "build_color_pool rnd rand num_colors =
     (case pool_loop rnd (nat (num_colors - 2)) rand 0 [''#000000'', ''#FFFFFF''] of
        Inl e \<Rightarrow> Inl e
      | Inr (pool, pos) \<Rightarrow> Inr pool)"

section \<open>The colour assignment (lines 94-106)\<close>

text \<open>
  \<open>random.shuffle\<close> rearranges the list in place; \<open>perm\<close> lists, for every position of
  the result, the position of the input it takes its entry from (the library picks it
  for the length of the list it is given, so the draw is a function of that length). \<open>random.sample\<close> is the
  list \<open>extra\<close> of the indices it returns.
\<close>

definition shuffle :: "nat list \<Rightarrow> 'a list \<Rightarrow> 'a list" where
  "shuffle perm xs = map (\<lambda>p. xs ! p) perm"

text \<open>
  The two loops and the shuffle, with the entry appended for index \<open>i\<close> left open
  (\<open>pick i\<close>). The code appends \<open>color_pool[i]\<close>. The indices read are below
  \<open>num_colors\<close>, which never exceeds the length of the pool.
\<close>

definition distribute ::
  "(nat \<Rightarrow> 'a) \<Rightarrow> int \<Rightarrow> int \<Rightarrow> nat list \<Rightarrow> (nat \<Rightarrow> nat list) \<Rightarrow> error + 'a list" where
  "distribute pick num_points num_colors extra perm =
     (if num_colors = 0 then Inl ZeroDivisionError
      else
        let colors_per_point = num_points div num_colors;
            remainder = num_points mod num_colors;
            colors = fold (\<lambda>i cs. cs @ replicate (nat colors_per_point) (pick i)) [0..<nat num_colors] [];
            colors = (if remainder > 0 then fold (\<lambda>i cs. cs @ [pick i]) extra colors else colors)
        in Inr (shuffle (perm (length colors)) colors))"

definition assign_colors ::
  "string list \<Rightarrow> int \<Rightarrow> int \<Rightarrow> nat list \<Rightarrow> (nat \<Rightarrow> nat list) \<Rightarrow> error + string list" where
  "assign_colors color_pool = distribute (\<lambda>i. color_pool ! i)"

text \<open>The same loops recording the pool index \<open>i\<close> itself: the colour-pool index given to
  every site.\<close>

definition color_assignment ::
  "int \<Rightarrow> int \<Rightarrow> nat list \<Rightarrow> (nat \<Rightarrow> nat list) \<Rightarrow> error + nat list" where
  "color_assignment = distribute (\<lambda>i. i)"

text \<open>What the random library promises about the two draws.\<close>

definition sample_ok :: "int \<Rightarrow> int \<Rightarrow> nat list \<Rightarrow> bool" where
  "sample_ok num_points num_colors extra \<longleftrightarrow>
     distinct extra \<and> list_all (\<lambda>i. int i < num_colors) extra
     \<and> int (length extra) = num_points mod num_colors"

definition perm_ok :: "nat \<Rightarrow> nat list \<Rightarrow> bool" where
  "perm_ok n perm \<longleftrightarrow> length perm = n \<and> distinct perm \<and> list_all (\<lambda>p. p < n) perm"

section \<open>The grid classifier (lines 113-131)\<close>

text \<open>Line 114: a dictionary comprehension; a later entry replaces an earlier one with the
  same key.\<close>

definition color_to_index :: "string list \<Rightarrow> int \<Rightarrow> (string \<rightharpoonup> nat)" where
  "color_to_index color_pool num_colors =
     fold (\<lambda>(i, color) m. m(color \<mapsto> i)) (enumerate 0 (py_take num_colors color_pool)) Map.empty"

text \<open>
  \<open>np.linspace(start, stop, num)\<close>: \<open>num\<close> samples, both ends included. The library
  computes \<open>delta = stop - start\<close>, \<open>div = num - 1\<close> (\<open>dv\<close> below) and, for a positive \<open>div\<close>,
  \<open>step = delta / div\<close>; the samples are \<open>arange(num) * step + start\<close> (or
  \<open>arange(num) / div * delta + start\<close> if the step is zero), and the last sample is
  then overwritten with \<open>stop\<close>. With \<open>div = 0\<close> the samples are
  \<open>arange(num) * delta + start\<close>.
\<close>

definition linspace :: "(real \<Rightarrow> real) \<Rightarrow> real \<Rightarrow> real \<Rightarrow> nat \<Rightarrow> real list" where
  "linspace rnd start stop num =
     (let dv = num - 1;
          delta = rnd (stop - start);
          y = (if 0 < dv then
                 (let step = rnd (delta / real dv) in
                  if step = 0 then map (\<lambda>k. rnd (rnd (real k / real dv) * delta)) [0..<num]
                  else map (\<lambda>k. rnd (real k * step)) [0..<num])
               else map (\<lambda>k. rnd (real k * delta)) [0..<num]);
          y = map (\<lambda>v. rnd (v + start)) y
      in if 1 < num then y[num - 1 := stop] else y)"

text \<open>Lines 119-122: \<open>meshgrid\<close>, \<open>ravel\<close> and \<open>vstack\<close>: the point of flat index \<open>f\<close> is
  \<open>(x[f % G], y[f // G])\<close>.\<close>

definition grid_points :: "(real \<Rightarrow> real) \<Rightarrow> nat \<Rightarrow> (real \<times> real) list" where
  "grid_points rnd G =
     (let x = linspace rnd 0 10 G; y = linspace rnd 0 10 G
      in map (\<lambda>f. (x ! (f mod G), y ! (f div G))) [0..<G * G])"

text \<open>Line 128: \<open>np.sum((points - grid_point) ** 2, axis=1)\<close>: per site two differences,
  two squares and their sum, each one rounded.\<close>

definition sq_dists :: "(real \<Rightarrow> real) \<Rightarrow> (real \<times> real) list \<Rightarrow> real \<times> real \<Rightarrow> real list" where
  "sq_dists rnd points gp =
     map (\<lambda>p. rnd (rnd ((rnd (fst p - fst gp))\<^sup>2) + rnd ((rnd (snd p - snd gp))\<^sup>2))) points"

text \<open>\<open>np.argmin\<close>: the index of the first occurrence of the minimum; an empty array is a
  \<open>ValueError\<close>.\<close>

fun argmin_from :: "'a::linorder list \<Rightarrow> nat \<Rightarrow> nat \<Rightarrow> 'a \<Rightarrow> nat" where
  "argmin_from [] k bi bv = bi"
| "argmin_from (d # ds) k bi bv =
     (if d < bv then argmin_from ds (Suc k) k d else argmin_from ds (Suc k) bi bv)"

definition np_argmin :: "'a::linorder list \<Rightarrow> error + nat" where
  "np_argmin ds = (case ds of [] \<Rightarrow> Inl ValueError | d # rest \<Rightarrow> Inr (argmin_from rest 1 0 d))"

type_synonym grid = "nat list list"

definition zeros :: "nat \<Rightarrow> grid" where
  "zeros G = replicate G (replicate G 0)"

definition grid_set :: "grid \<Rightarrow> nat \<Rightarrow> nat \<Rightarrow> nat \<Rightarrow> grid" where
  "grid_set g r c v = g[r := (g ! r)[c := v]]"

fun fold_err :: "('a \<Rightarrow> 's \<Rightarrow> error + 's) \<Rightarrow> 'a list \<Rightarrow> 's \<Rightarrow> error + 's" where
  "fold_err f [] s = Inr s"
| "fold_err f (x # xs) s = (case f x s of Inl e \<Rightarrow> Inl e | Inr s' \<Rightarrow> fold_err f xs s')"

text \<open>Lines 128-131: one round of the loop over \<open>enumerate(grid_points)\<close>.\<close>

definition classify_step ::
  "(real \<Rightarrow> real) \<Rightarrow> nat \<Rightarrow> (real \<times> real) list \<Rightarrow> string list \<Rightarrow> (string \<rightharpoonup> nat)
     \<Rightarrow> nat \<times> (real \<times> real) \<Rightarrow> grid \<times> grid \<Rightarrow> error + (grid \<times> grid)" where
  "classify_step rnd G points colors c2i = (\<lambda>(f, grid_point) (ig, cg).
     case np_argmin (sq_dists rnd points grid_point) of
       Inl e \<Rightarrow> Inl e
     | Inr closest_point_idx \<Rightarrow>
         if closest_point_idx < length colors then
           (case c2i (colors ! closest_point_idx) of
              None \<Rightarrow> Inl KeyError
            | Some ci \<Rightarrow>
                Inr (grid_set ig (f div G) (f mod G) closest_point_idx,
                     grid_set cg (f div G) (f mod G) ci))
         else Inl IndexError)"

definition classify_grid ::
  "(real \<Rightarrow> real) \<Rightarrow> nat \<Rightarrow> (real \<times> real) list \<Rightarrow> string list \<Rightarrow> (string \<rightharpoonup> nat)
     \<Rightarrow> error + (grid \<times> grid)" where
  "classify_grid rnd G points colors c2i =
     fold_err (classify_step rnd G points colors c2i) (enumerate 0 (grid_points rnd G))
       (zeros G, zeros G)"

section \<open>The boundary extractor (lines 151-169)\<close>

type_synonym segment = "(real \<times> real) \<times> (real \<times> real)"

text \<open>The body of the inner loop: the two checks of cell \<open>(i, j)\<close>, each appending a line
  (the coordinates as exact products, see the beginning).\<close>

definition cell_lines :: "nat \<Rightarrow> grid \<Rightarrow> nat \<Rightarrow> nat \<Rightarrow> segment list \<Rightarrow> segment list" where
  "cell_lines G ig i j boundary_lines =
     (let dx = 10 / real G; dy = 10 / real G;
          boundary_lines =
            (if ig ! i ! j \<noteq> ig ! i ! (j + 1)
             then boundary_lines @ [((real j * dx, real i * dy), (real (j + 1) * dx, real i * dy))]
             else boundary_lines);
          boundary_lines =
            (if ig ! i ! j \<noteq> ig ! (i + 1) ! j
             then boundary_lines @ [((real j * dx, real i * dy), (real j * dx, real (i + 1) * dy))]
             else boundary_lines)
      in boundary_lines)"

definition boundary_scan :: "nat \<Rightarrow> grid \<Rightarrow> segment list" where
  "boundary_scan G ig =
     fold (\<lambda>i ls. fold (\<lambda>j ls. cell_lines G ig i j ls) [0..<G - 1] ls) [0..<G - 1] []"

section \<open>\<open>generate_voronoi\<close> (lines 70-171)\<close>

text \<open>
  The random draws of one call: the rows of \<open>np.random.rand(N, 2)\<close>, the stream of
  \<open>np.random.rand(3)\<close> candidates, the result of \<open>random.sample\<close> and the permutation
  of \<open>random.shuffle\<close>.
\<close>

record draws =
  site_draws :: "nat \<Rightarrow> real \<times> real"
  color_draws :: "nat \<Rightarrow> rgb"
  extra_colors :: "nat list"
  shuffle_perm :: "nat \<Rightarrow> nat list"

text \<open>What a call leaves behind: the globals \<open>points\<close>, \<open>colors\<close>, \<open>index_grid\<close>,
  \<open>color_grid\<close>, the pool with the number of colours in use, and the boundary lines.\<close>

record diagram =
  points :: "(real \<times> real) list"
  color_pool :: "string list"
  num_colors :: int
  colors :: "string list"
  index_grid :: grid
  color_grid :: grid
  boundary_lines :: "segment list"

definition grid_size :: nat where
  "grid_size = 300"

text \<open>The function with the grid resolution as a parameter; the drawing calls are left
  out.\<close>

definition generate_voronoi_at ::
  "(real \<Rightarrow> real) \<Rightarrow> nat \<Rightarrow> draws \<Rightarrow> int \<Rightarrow> int \<Rightarrow> error + diagram" where
  "generate_voronoi_at rnd G d n k =
     (if n < 0 then Inl ValueError
      else
        let pts = map (\<lambda>r. (rnd (fst (site_draws d r) * 10), rnd (snd (site_draws d r) * 10)))
                    [0..<nat n];
            k' = min k n
        in case build_color_pool rnd (color_draws d) k' of
             Inl e \<Rightarrow> Inl e
           | Inr pool \<Rightarrow>
               (case assign_colors pool n k' (extra_colors d) (shuffle_perm d) of
                  Inl e \<Rightarrow> Inl e
                | Inr cols \<Rightarrow>
                    (case classify_grid rnd G pts cols (color_to_index pool k') of
                       Inl e \<Rightarrow> Inl e
                     | Inr (ig, cg) \<Rightarrow>
                         Inr \<lparr>points = pts, color_pool = pool, num_colors = k', colors = cols,
                              index_grid = ig, color_grid = cg,
                              boundary_lines = boundary_scan G ig\<rparr>)))"

definition generate_voronoi :: "(real \<Rightarrow> real) \<Rightarrow> draws \<Rightarrow> int \<Rightarrow> int \<Rightarrow> error + diagram" where
  "generate_voronoi rnd = generate_voronoi_at rnd grid_size"

section \<open>Notions used in the statements\<close>

text \<open>The list the two loops of lines 99-105 have built when \<open>random.shuffle\<close> is
  called, for a non-zero \<open>num_colors\<close> (see \<open>distribute_pre\<close>).\<close>

definition pre_shuffle :: "(nat \<Rightarrow> 'a) \<Rightarrow> int \<Rightarrow> int \<Rightarrow> nat list \<Rightarrow> 'a list" where
  "pre_shuffle pick N K extra =
     concat (map (\<lambda>i. replicate (nat (N div K)) (pick i)) [0..<nat K])
       @ (if N mod K > 0 then map pick extra else [])"

text \<open>The two lines a cell can contribute (lines 158-159 and 165-166), and the cell pair
  each one stands for: \<open>(i, j, False)\<close> is the pair \<open>(i, j)\<close>, \<open>(i, j + 1)\<close>, and
  \<open>(i, j, True)\<close> the pair \<open>(i, j)\<close>, \<open>(i + 1, j)\<close>.\<close>

definition h_line :: "nat \<Rightarrow> nat \<Rightarrow> nat \<Rightarrow> segment" where
  "h_line G i j = ((real j * (10 / real G), real i * (10 / real G)),
                   (real (j + 1) * (10 / real G), real i * (10 / real G)))"

definition v_line :: "nat \<Rightarrow> nat \<Rightarrow> nat \<Rightarrow> segment" where
  "v_line G i j = ((real j * (10 / real G), real i * (10 / real G)),
                   (real j * (10 / real G), real (i + 1) * (10 / real G)))"

definition segment_of :: "nat \<Rightarrow> nat \<times> nat \<times> bool \<Rightarrow> segment" where
  "segment_of G = (\<lambda>(i, j, v). if v then v_line G i j else h_line G i j)"

definition differs :: "grid \<Rightarrow> nat \<times> nat \<times> bool \<Rightarrow> bool" where
  "differs ig = (\<lambda>(i, j, v). if v then ig ! i ! j \<noteq> ig ! (i + 1) ! j else ig ! i ! j \<noteq> ig ! i ! (j + 1))"

text \<open>An array of shape \<open>(G, G)\<close>.\<close>

definition shape :: "nat \<Rightarrow> grid \<Rightarrow> bool" where
  "shape G g \<longleftrightarrow> length g = G \<and> list_all (\<lambda>row. length row = G) g"

text \<open>The checks of the double loop in the order they are made.\<close>

definition scan_order :: "nat \<Rightarrow> (nat \<times> nat \<times> bool) list" where
  "scan_order G = concat (map (\<lambda>i. concat (map (\<lambda>j. [(i, j, False), (i, j, True)]) [0..<G - 1])) [0..<G - 1])"

text \<open>What lines 128-131 compute for one grid point: the index of the nearest site and
  the colour index looked up for it.\<close>

definition classify_cell ::
  "(real \<Rightarrow> real) \<Rightarrow> (real \<times> real) list \<Rightarrow> string list \<Rightarrow> (string \<rightharpoonup> nat) \<Rightarrow> real \<times> real
     \<Rightarrow> error + (nat \<times> nat)" where
  "classify_cell rnd pts cols c2i gp =
     (case np_argmin (sq_dists rnd pts gp) of
        Inl e \<Rightarrow> Inl e
      | Inr k \<Rightarrow>
          if k < length cols then
            (case c2i (cols ! k) of None \<Rightarrow> Inl KeyError | Some ci \<Rightarrow> Inr (k, ci))
          else Inl IndexError)"

text \<open>The dictionary comprehension of line 114 over any list, counting from \<open>n\<close>.\<close>

definition dict_of :: "nat \<Rightarrow> string list \<Rightarrow> (string \<rightharpoonup> nat) \<Rightarrow> (string \<rightharpoonup> nat)" where
  "dict_of n xs m = fold (\<lambda>(i, color) m. m(color \<mapsto> i)) (enumerate n xs) m"

text \<open>
  What the theorems use of the rounding: it is monotone and leaves the integers from 0
  to 255 as they are. IEEE round-to-nearest has both properties, and so has exact
  arithmetic (\<open>\<lambda>x. x\<close>).
\<close>

definition rounding :: "(real \<Rightarrow> real) \<Rightarrow> bool" where
  "rounding rnd \<longleftrightarrow> (\<forall>x y. x \<le> y \<longrightarrow> rnd x \<le> rnd y) \<and> (\<forall>k\<le>255. rnd (real k) = real k)"

text \<open>
  Where a distance bound is derived from the test of line 61, the size of the rounding
  error matters: a number of absolute value up to 4 is rounded with an error of at most
  \<open>1 / 10 ^ 9\<close>. For IEEE doubles the error on that range is below \<open>1 / 10 ^ 15\<close>.
\<close>

definition accurate :: "(real \<Rightarrow> real) \<Rightarrow> bool" where
  "accurate rnd \<longleftrightarrow> (\<forall>x. \<bar>x\<bar> \<le> 4 \<longrightarrow> \<bar>rnd x - x\<bar> \<le> 1 / 1000000000)"

text \<open>Colour strings \<open>to_rgb\<close> accepts, and draws of \<open>np.random.rand\<close> (each component in
  \<open>[0, 1)\<close>).\<close>

definition valid_colors :: "(real \<Rightarrow> real) \<Rightarrow> string list \<Rightarrow> bool" where
  "valid_colors rnd cs \<longleftrightarrow> list_all (\<lambda>c. to_rgb rnd c \<noteq> None) cs"

definition unit_rgb :: "rgb \<Rightarrow> bool" where
  "unit_rgb c \<longleftrightarrow> (case c of (r, g, b) \<Rightarrow> 0 \<le> r \<and> r < 1 \<and> 0 \<le> g \<and> g < 1 \<and> 0 \<le> b \<and> b < 1)"

text \<open>
  What the random library promises about the draws of one call with \<open>n\<close> points and
  \<open>k\<close> requested colours. \<open>random.sample\<close> is called only when the remainder is positive
  (line 103), so its result is constrained only then.
\<close>

definition draws_ok :: "draws \<Rightarrow> int \<Rightarrow> int \<Rightarrow> bool" where
  "draws_ok d n k \<longleftrightarrow>
     (\<forall>p. unit_rgb (color_draws d p))
     \<and> (min k n \<noteq> 0 \<and> 0 < n mod min k n \<longrightarrow> sample_ok n (min k n) (extra_colors d))
     \<and> (\<forall>m. perm_ok m (shuffle_perm d m))"

text \<open>Draws used in the examples below: every candidate colour is \<open>c\<close> and the shuffle
  leaves the order as it is.\<close>

definition fixed_draws :: "(nat \<Rightarrow> real \<times> real) \<Rightarrow> rgb \<Rightarrow> nat list \<Rightarrow> draws" where
  "fixed_draws sites c extra =
     \<lparr>site_draws = sites, color_draws = (\<lambda>p. c), extra_colors = extra,
      shuffle_perm = (\<lambda>n. [0..<n])\<rparr>"

definition gray_draws :: draws where
  "gray_draws = fixed_draws (\<lambda>r. if r = 2 then (0, 0) else (1 / 2, 1 / 2)) (1 / 100, 1 / 100, 1 / 100) []"

section \<open>Hexadecimal digits\<close>

lemma hexstr_small: "n < 16 \<Longrightarrow> hexstr n = [hexdigit n]"
  by (simp add: hexstr.simps)

section \<open>The colour distributor\<close>

lemma fold_snoc_concat: "fold (\<lambda>i cs. cs @ g i) xs acc = acc @ concat (map g xs)"
  by (induction xs arbitrary: acc) simp_all

lemma shuffle_map: "shuffle perm (map f xs) = map (\<lambda>p. (map f xs) ! p) perm"
  by (simp add: shuffle_def)

lemma mset_shuffle: "mset perm = mset [0..<length xs] \<Longrightarrow> mset (shuffle perm xs) = mset xs"
proof -
  assume h: "mset perm = mset [0..<length xs]"
  have "mset (shuffle perm xs) = image_mset ((!) xs) (mset perm)"
    by (simp add: shuffle_def)
  also have "\<dots> = mset (map ((!) xs) [0..<length xs])"
    by (simp add: h)
  also have "\<dots> = mset xs"
    by (simp add: map_nth)
  finally show ?thesis .
qed

lemma count_list_replicate: "count_list (replicate b x) y = (if x = y then b else 0)"
  by (induction b) auto

lemma count_base: "count_list (concat (map (\<lambda>i. replicate b i) [0..<k])) j = (if j < k then b else 0)"
  by (induction k) (auto simp: count_list_replicate)

lemma length_base: "length (concat (map (\<lambda>i. replicate b (g i)) [0..<k])) = k * b"
  by (induction k) simp_all

lemma count_distinct: "distinct xs \<Longrightarrow> count_list xs j = (if j \<in> set xs then 1 else 0)"
  by (induction xs) auto

lemma perm_in_range: "mset perm = mset [0..<n] \<Longrightarrow> p \<in> set perm \<Longrightarrow> p < n"
  by (metis atLeastLessThan_iff set_mset_mset set_upt)

lemma shuffle_pick:
  assumes "mset perm = mset [0..<length xs]"
  shows "shuffle perm (map f xs) = map f (shuffle perm xs)"
  using perm_in_range[OF assms] by (simp add: shuffle_def)

lemma count_list_shuffle:
  assumes "mset perm = mset [0..<length xs]"
  shows "count_list (shuffle perm xs) j = count_list xs j"
proof -
  have "count (mset (shuffle perm xs)) j = count (mset xs) j"
    by (simp add: mset_shuffle[OF assms])
  then show ?thesis by (simp only: count_mset)
qed

lemma distribute_pre:
  "K \<noteq> 0 \<Longrightarrow> distribute pick N K extra perm =
     Inr (shuffle (perm (length (pre_shuffle pick N K extra))) (pre_shuffle pick N K extra))"
  by (simp add: distribute_def Let_def fold_snoc_concat pre_shuffle_def)

lemma pre_shuffle_map: "pre_shuffle pick N K extra = map pick (pre_shuffle (\<lambda>i. i) N K extra)"
  by (simp add: pre_shuffle_def map_concat comp_def)

lemma length_pre_shuffle:
  assumes "0 < K" "0 \<le> N" "int (length extra) = N mod K"
  shows "length (pre_shuffle pick N K extra) = nat N"
proof -
  have nn: "0 \<le> N div K" using assms by (simp add: pos_imp_zdiv_nonneg_iff)
  have m: "0 \<le> N mod K" using assms(1) by simp
  have "int (length (pre_shuffle pick N K extra)) = K * (N div K) + N mod K"
  proof (cases "0 < N mod K")
    case True
    then show ?thesis using assms nn by (simp add: pre_shuffle_def length_base)
  next
    case False
    then have "N mod K = 0" using m by linarith
    then show ?thesis using assms nn by (simp add: pre_shuffle_def length_base)
  qed
  then show ?thesis by simp
qed

lemma count_pre_shuffle:
  assumes "0 < K" "0 \<le> N" "sample_ok N K extra"
  shows "count_list (pre_shuffle (\<lambda>i. i) N K extra) j =
           (if j < nat K then nat (N div K) else 0) + (if j \<in> set extra then 1 else 0)"
proof -
  have d: "distinct extra" and l: "int (length extra) = N mod K"
    using assms(3) by (simp_all add: sample_ok_def)
  have "N mod K = 0 \<Longrightarrow> extra = []" using l by simp
  moreover have "0 \<le> N mod K" using assms(1) by simp
  ultimately show ?thesis
    using count_base[of "nat (N div K)" "nat K" j] count_distinct[OF d, of j]
    by (cases "N mod K > 0") (auto simp: pre_shuffle_def)
qed

lemma perm_ok_mset:
  assumes "perm_ok n perm"
  shows "mset perm = mset [0..<n]"
proof -
  have l: "length perm = n" and d: "distinct perm" and r: "set perm \<subseteq> {0..<n}"
    using assms by (auto simp: perm_ok_def list_all_iff)
  have "card (set perm) = card {0..<n}"
    using distinct_card[OF d] l by simp
  then have "set perm = {0..<n}"
    using r by (simp add: card_subset_eq)
  then have "set perm = set [0..<n]" by simp
  then show ?thesis
    using set_eq_iff_mset_eq_distinct[OF d distinct_upt, of 0 n] by blast
qed

lemma color_assignment_balanced:
  assumes "0 < K" "0 \<le> N" "sample_ok N K extra" "perm_ok (nat N) (perm (nat N))"
  shows "\<exists>a. color_assignment N K extra perm = Inr a
           \<and> assign_colors pool N K extra perm = Inr (map (\<lambda>i. pool ! i) a)
           \<and> length a = nat N
           \<and> (\<forall>i. count_list a i =
                  (if i < nat K then nat (N div K) + (if i \<in> set extra then 1 else 0) else 0))
           \<and> card {i. i < nat K \<and> count_list a i = nat (N div K) + 1} = nat (N mod K)
           \<and> (N mod K = 0 \<longrightarrow> (\<forall>i < nat K. count_list a i = nat (N div K)))"
proof -
  let ?pre = "pre_shuffle (\<lambda>i. i) N K extra"
  let ?a = "shuffle (perm (nat N)) ?pre"
  have K0: "K \<noteq> 0" using assms(1) by simp
  have d: "distinct extra" and l: "int (length extra) = N mod K"
    and r: "\<And>i. i \<in> set extra \<Longrightarrow> i < nat K"
    using assms(3) by (auto simp: sample_ok_def list_all_iff)
  have len: "length ?pre = nat N" by (rule length_pre_shuffle[OF assms(1,2) l])
  have len': "length (pre_shuffle (\<lambda>i. pool ! i) N K extra) = nat N"
    by (rule length_pre_shuffle[OF assms(1,2) l])
  have p: "mset (perm (nat N)) = mset [0..<length ?pre]"
    using perm_ok_mset[OF assms(4)] len by simp
  have 1: "color_assignment N K extra perm = Inr ?a"
    by (simp add: color_assignment_def distribute_pre[OF K0] len)
  have 2: "assign_colors pool N K extra perm = Inr (map (\<lambda>i. pool ! i) ?a)"
    unfolding assign_colors_def distribute_pre[OF K0] len'
    by (subst pre_shuffle_map) (simp add: shuffle_pick[OF p])
  have 3: "length ?a = nat N"
    using mset_eq_length[OF p] len by (simp add: shuffle_def)
  have cnt: "count_list ?a i =
      (if i < nat K then nat (N div K) + (if i \<in> set extra then 1 else 0) else 0)" for i
    using count_list_shuffle[OF p, of i] count_pre_shuffle[OF assms(1,2,3), of i] r[of i]
    by auto
  have "{i. i < nat K \<and> count_list ?a i = nat (N div K) + 1} = set extra"
    using r by (auto simp: cnt)
  then have 5: "card {i. i < nat K \<and> count_list ?a i = nat (N div K) + 1} = nat (N mod K)"
    using distinct_card[OF d] l by simp
  have 6: "N mod K = 0 \<longrightarrow> (\<forall>i < nat K. count_list ?a i = nat (N div K))"
    using l by (auto simp: cnt)
  show ?thesis using 1 2 3 cnt 5 6 by blast
qed

text \<open>
  C3. For every number of sites \<open>N\<close> and pool size \<open>K > 0\<close>, with \<open>random.sample\<close> returning
  \<open>N mod K\<close> distinct indices below \<open>K\<close> and \<open>random.shuffle\<close> a permutation, the colour
  assignment is a sequence of exactly \<open>N\<close> pool indices (the colours of the sites are the
  pool entries at these indices); every index below \<open>K\<close> occurs \<open>N div K\<close> times, plus once
  more exactly when it is one of the sampled indices; the indices occurring
  \<open>N div K + 1\<close> times are \<open>N mod K\<close> many; and when \<open>N mod K = 0\<close> every index occurs exactly
  \<open>N div K\<close> times.
\<close>

theorem C3_balanced_assignment:
  assumes "0 < K" "0 \<le> N" "sample_ok N K extra" "perm_ok (nat N) (perm (nat N))"
  shows "\<exists>a. color_assignment N K extra perm = Inr a
           \<and> assign_colors pool N K extra perm = Inr (map (\<lambda>i. pool ! i) a)
           \<and> length a = nat N
           \<and> (\<forall>i. count_list a i =
                  (if i < nat K then nat (N div K) + (if i \<in> set extra then 1 else 0) else 0))
           \<and> card {i. i < nat K \<and> count_list a i = nat (N div K) + 1} = nat (N mod K)
           \<and> (N mod K = 0 \<longrightarrow> (\<forall>i < nat K. count_list a i = nat (N div K)))"
  using assms by (rule color_assignment_balanced)

theorem C3_balanced_assignment_witness:
  "sample_ok 7 3 [2] \<and> perm_ok 7 (rev [0..<7])
   \<and> color_assignment 7 3 [2] (\<lambda>n. rev [0..<n]) = Inr [2, 2, 2, 1, 1, 0, 0]
   \<and> (\<exists>a. color_assignment 7 3 [2] (\<lambda>n. rev [0..<n]) = Inr a \<and> length a = 7
          \<and> card {i. i < 3 \<and> count_list a i = 3} = 1)"
proof -
  have s: "sample_ok 7 3 [2]" by (simp add: sample_ok_def)
  have p: "perm_ok 7 (rev [0..<7])" by (simp add: perm_ok_def list_all_iff)
  have p': "perm_ok (nat 7) ((\<lambda>n. rev [0..<n]) (nat 7))" using p by simp
  have v: "color_assignment 7 3 [2] (\<lambda>n. rev [0..<n]) = Inr [2, 2, 2, 1, 1, 0, 0]"
    by code_simp
  from C3_balanced_assignment[of 3 7 "[2]" "\<lambda>n. rev [0..<n]", OF _ _ s p']
  obtain a where "color_assignment 7 3 [2] (\<lambda>n. rev [0..<n]) = Inr a" "length a = 7"
      "card {i. i < nat 3 \<and> count_list a i = nat (7 div 3) + 1} = nat (7 mod 3)"
    by auto
  then have "\<exists>a. color_assignment 7 3 [2] (\<lambda>n. rev [0..<n]) = Inr a \<and> length a = 7
          \<and> card {i. i < 3 \<and> count_list a i = 3} = 1"
    by (auto simp: numeral_3_eq_3)
  with s p v show ?thesis by blast
qed

section \<open>The boundary extractor: scan order and endpoints\<close>

lemma cell_lines_append:
  "cell_lines G ig i j ls = ls @ map (segment_of G) (filter (differs ig) [(i, j, False), (i, j, True)])"
  by (simp add: cell_lines_def segment_of_def differs_def h_line_def v_line_def Let_def)

lemma boundary_scan_filter:
  "boundary_scan G ig = map (segment_of G) (filter (differs ig) (scan_order G))"
proof -
  have inner: "fold (\<lambda>j ls. cell_lines G ig i j ls) js ls
      = ls @ map (segment_of G) (filter (differs ig) (concat (map (\<lambda>j. [(i, j, False), (i, j, True)]) js)))"
    for i js ls
    by (induction js arbitrary: ls) (simp_all add: cell_lines_append)
  have outer: "fold (\<lambda>i ls. fold (\<lambda>j ls. cell_lines G ig i j ls) [0..<G - 1] ls) is ls
      = ls @ map (segment_of G) (filter (differs ig)
          (concat (map (\<lambda>i. concat (map (\<lambda>j. [(i, j, False), (i, j, True)]) [0..<G - 1])) is)))"
    for "is" ls
    by (induction "is" arbitrary: ls) (simp_all add: inner)
  show ?thesis unfolding boundary_scan_def scan_order_def outer by simp
qed

lemma sorted_wrt_concat_map:
  assumes "sorted_wrt (\<lambda>a b. \<forall>x\<in>set (f a). \<forall>y\<in>set (f b). R x y) xs"
    and "\<And>x. x \<in> set xs \<Longrightarrow> sorted_wrt R (f x)"
  shows "sorted_wrt R (concat (map f xs))"
  using assms by (induction xs) (auto simp: sorted_wrt_append)

lemma sorted_upt_lift:
  assumes "\<And>a b. a < b \<Longrightarrow> Q a b"
  shows "sorted_wrt Q [0..<n]"
  using sorted_wrt_mono_rel[of "[0..<n]" "(<)" Q] assms by simp

lemma sorted_scan_order: "sorted_wrt (<) (scan_order G)"
  unfolding scan_order_def
  apply (rule sorted_wrt_concat_map)
   apply (rule sorted_upt_lift)
   apply auto[1]
  apply (rule sorted_wrt_concat_map)
   apply (rule sorted_upt_lift)
   apply auto
  done

lemma set_scan_order: "set (scan_order G) = {(i, j, v). i < G - 1 \<and> j < G - 1}"
proof -
  have "(i, j, v) \<in> set (scan_order G) \<longleftrightarrow> i < G - 1 \<and> j < G - 1" for i j v
    by (cases v) (auto simp: scan_order_def)
  then show ?thesis by auto
qed

lemma segment_of_inj:
  assumes "0 < G" "segment_of G a = segment_of G b"
  shows "a = b"
proof -
  obtain i j v where a: "a = (i, j, v)" by (cases a) auto
  obtain i' j' v' where b: "b = (i', j', v')" by (cases b) auto
  have g: "10 / real G \<noteq> 0" using assms(1) by simp
  show ?thesis using assms(2) g unfolding a b
    by (cases v; cases v') (auto simp: segment_of_def h_line_def v_line_def)
qed

lemma count_list_map_inj:
  assumes "\<And>a b. f a = f b \<Longrightarrow> a = b"
  shows "count_list (map f xs) (f k) = count_list xs k"
  using assms by (induction xs) auto

lemma flat_index: "j < G \<Longrightarrow> i < G \<Longrightarrow> i * G + j < G * (G::nat)"
proof -
  assume j: "j < G" and i: "i < G"
  have "i * G + j < i * G + G" using j by simp
  also have "\<dots> = Suc i * G" by simp
  also have "\<dots> \<le> G * G" using i by (metis Suc_leI mult_le_mono1)
  finally show ?thesis .
qed

lemma length_linspace: "length (linspace rnd start stop num) = num"
  by (simp add: linspace_def Let_def)

lemma grid_points_nth:
  assumes "i < G" "j < G"
  shows "grid_points rnd G ! (i * G + j) = (linspace rnd 0 10 G ! j, linspace rnd 0 10 G ! i)"
  using assms flat_index[OF assms(2,1)] by (simp add: grid_points_def Let_def)

lemma length_grid_points: "length (grid_points rnd G) = G * G"
  by (simp add: grid_points_def Let_def)

text \<open>The samples below the last one, as the library computes them (\<open>delta = 10\<close>,
  \<open>start = 0\<close>), and all of them in exact arithmetic.\<close>

lemma linspace_nth:
  assumes "j < G - 1" "rnd (rnd 10 / real (G - 1)) \<noteq> 0"
  shows "linspace rnd 0 10 G ! j = rnd (rnd (real j * rnd (rnd 10 / real (G - 1))))"
proof -
  have G: "1 < G" "0 < G - 1" "j < G" "j \<noteq> G - 1" using assms(1) by auto
  show ?thesis using assms(2) G unfolding linspace_def Let_def by simp
qed

lemma linspace_exact:
  assumes "j < G"
  shows "linspace (\<lambda>x. x) 0 10 G ! j = real j * (10 / real (G - 1))"
proof (cases "1 < G")
  case False
  then have "G = 1" "j = 0" using assms by auto
  then show ?thesis by (simp add: linspace_def Let_def)
next
  case G: True
  then have nz: "real (G - 1) \<noteq> 0" by simp
  show ?thesis
  proof (cases "j = G - 1")
    case True
    have "linspace (\<lambda>x. x) 0 10 G ! j = 10"
      using G True unfolding linspace_def Let_def by simp
    also have "\<dots> = real (G - 1) * (10 / real (G - 1))"
      using nz by (metis nonzero_mult_div_cancel_left times_divide_eq_right)
    also have "\<dots> = real j * (10 / real (G - 1))" by (simp only: True)
    finally show ?thesis .
  next
    case False
    then show ?thesis using G assms nz unfolding linspace_def Let_def by simp
  qed
qed

text \<open>
  C4, as the code has it. For every \<open>index_grid\<close> of shape \<open>(G, G)\<close> the extractor emits the
  lines of exactly the adjacent pairs \<open>(i, j)\<close>, \<open>(i, j + 1)\<close> and \<open>(i, j)\<close>, \<open>(i + 1, j)\<close> with
  \<open>i\<close> and \<open>j\<close> in \<open>0 .. G - 2\<close> whose values differ: one line per such pair (no line occurs
  twice), in strictly increasing order of row, then column, then horizontal check before
  vertical check. Pairs in the last row (\<open>i = G - 1\<close>, horizontal) and the last column
  (\<open>j = G - 1\<close>, vertical) are not scanned.
\<close>

theorem C4_boundary_scan:
  assumes "shape G ig"
  shows "\<exists>ks. boundary_scan G ig = map (segment_of G) ks \<and> sorted_wrt (<) ks
           \<and> set ks = {(i, j, v). i < G - 1 \<and> j < G - 1 \<and> differs ig (i, j, v)}
           \<and> distinct (boundary_scan G ig)
           \<and> (\<forall>k. count_list (boundary_scan G ig) (segment_of G k) = (if k \<in> set ks then 1 else 0))"
proof -
  let ?ks = "filter (differs ig) (scan_order G)"
  have 1: "boundary_scan G ig = map (segment_of G) ?ks" by (rule boundary_scan_filter)
  have 2: "sorted_wrt (<) ?ks" by (rule sorted_wrt_filter[OF sorted_scan_order])
  have 3: "set ?ks = {(i, j, v). i < G - 1 \<and> j < G - 1 \<and> differs ig (i, j, v)}"
    by (auto simp: set_scan_order)
  have d: "distinct ?ks" using 2 by (simp add: strict_sorted_iff)
  show ?thesis
  proof (cases "G = 0")
    case True
    then have "?ks = []" by (simp add: scan_order_def)
    then show ?thesis using 1 3 by (intro exI[of _ "[]"]) simp
  next
    case False
    then have inj: "\<And>a b. segment_of G a = segment_of G b \<Longrightarrow> a = b"
      using segment_of_inj by blast
    have 4: "distinct (boundary_scan G ig)"
      unfolding 1 using d inj by (simp add: distinct_map inj_on_def)
    have 5: "count_list (boundary_scan G ig) (segment_of G k) = (if k \<in> set ?ks then 1 else 0)" for k
    proof -
      have "count_list (map (segment_of G) ?ks) (segment_of G k) = count_list ?ks k"
        by (rule count_list_map_inj) (rule inj)
      then show ?thesis unfolding 1 by (simp add: count_distinct[OF d])
    qed
    show ?thesis using 1 2 3 4 5 by blast
  qed
qed

theorem C4_boundary_scan_witness:
  "shape 2 [[0, 1], [2, 0]]
   \<and> boundary_scan 2 [[0, 1], [2, 0]] = [((0, 0), (5, 0)), ((0, 0), (0, 5))]
   \<and> distinct (boundary_scan 2 [[0, 1], [2, 0]])"
proof -
  have s: "shape 2 [[0, 1], [2, 0]]" by (simp add: shape_def)
  have v: "boundary_scan 2 [[0, 1], [2, 0]] = [((0, 0), (5, 0)), ((0, 0), (0, 5))]"
    by (simp add: boundary_scan_def cell_lines_def)
  from C4_boundary_scan[OF s] have "distinct (boundary_scan 2 [[0, 1], [2, 0]])" by blast
  with s v show ?thesis by blast
qed

text \<open>The claim as stated (every adjacent pair of the grid) fails: in a 2 by 2 grid the
  pairs \<open>(1, 0)\<close>, \<open>(1, 1)\<close> and \<open>(0, 1)\<close>, \<open>(1, 1)\<close> differ and no line is emitted.\<close>

theorem C4_last_row_counterexample:
  "shape 2 [[0, 0], [0, 1]]
   \<and> [[0, 0], [0, 1 :: nat]] ! 1 ! 0 \<noteq> [[0, 0], [0, 1]] ! 1 ! 1
   \<and> [[0, 0], [0, 1 :: nat]] ! 0 ! 1 \<noteq> [[0, 0], [0, 1]] ! 1 ! 1
   \<and> boundary_scan 2 [[0, 0], [0, 1]] = []"
  by (simp add: shape_def boundary_scan_def cell_lines_def)

text \<open>
  C5, as the code has it. Every emitted line belongs to a scanned cell \<open>(i, j)\<close>
  (\<open>i, j \<le> G - 2\<close>) that differs from its right or its upper neighbour. With
  \<open>dx = dy = 10 / G\<close> it starts at the lower-left corner \<open>(j dx, i dy)\<close> of the cell and ends
  one step further at the lower-left corner of the neighbour: \<open>((j + 1) dx, i dy)\<close> for the
  right neighbour, \<open>(j dx, (i + 1) dy)\<close> for the upper one. The classifier's sample point of
  the cell is \<open>(j \<cdot> 10 / (G - 1), i \<cdot> 10 / (G - 1))\<close>: its spacing is \<open>10 / (G - 1)\<close>, not
  \<open>10 / G\<close>. That is the sample in exact arithmetic; with a rounding it is
  \<open>(j \<cdot> step, i \<cdot> step)\<close>, the product rounded, for the rounded \<open>step = 10 / (G - 1)\<close> of
  \<open>np.linspace\<close>.
\<close>

theorem C5_segment_endpoints:
  assumes "shape G ig" "s \<in> set (boundary_scan G ig)"
  shows "\<exists>i j. i < G - 1 \<and> j < G - 1
     \<and> (ig ! i ! j \<noteq> ig ! i ! (j + 1)
            \<and> s = ((real j * (10 / real G), real i * (10 / real G)),
                   (real (j + 1) * (10 / real G), real i * (10 / real G)))
          \<or> ig ! i ! j \<noteq> ig ! (i + 1) ! j
            \<and> s = ((real j * (10 / real G), real i * (10 / real G)),
                   (real j * (10 / real G), real (i + 1) * (10 / real G))))
     \<and> grid_points (\<lambda>x. x) G ! (i * G + j)
         = (real j * (10 / real (G - 1)), real i * (10 / real (G - 1)))
     \<and> (rnd (rnd 10 / real (G - 1)) \<noteq> 0 \<longrightarrow>
          grid_points rnd G ! (i * G + j)
            = (rnd (rnd (real j * rnd (rnd 10 / real (G - 1)))),
               rnd (rnd (real i * rnd (rnd 10 / real (G - 1))))))"
proof -
  from assms(2) obtain k where k: "k \<in> set (scan_order G)" "differs ig k" "s = segment_of G k"
    by (auto simp: boundary_scan_filter)
  obtain i j v where kk: "k = (i, j, v)" by (cases k) auto
  have r: "i < G - 1" "j < G - 1" using k(1) by (auto simp: kk set_scan_order)
  then have r': "i < G" "j < G" by auto
  have g: "grid_points (\<lambda>x. x) G ! (i * G + j)
             = (real j * (10 / real (G - 1)), real i * (10 / real (G - 1)))"
    by (simp only: grid_points_nth[OF r'] linspace_exact[OF r'(1)] linspace_exact[OF r'(2)])
  have g': "rnd (rnd 10 / real (G - 1)) \<noteq> 0 \<Longrightarrow>
          grid_points rnd G ! (i * G + j)
            = (rnd (rnd (real j * rnd (rnd 10 / real (G - 1)))),
               rnd (rnd (real i * rnd (rnd 10 / real (G - 1)))))"
  proof -
    assume nz: "rnd (rnd 10 / real (G - 1)) \<noteq> 0"
    show ?thesis
      by (simp only: grid_points_nth[OF r'] linspace_nth[where rnd = rnd and G = G and j = j, OF r(2) nz]
            linspace_nth[where rnd = rnd and G = G and j = i, OF r(1) nz])
  qed
  have c: "ig ! i ! j \<noteq> ig ! i ! (j + 1)
            \<and> s = ((real j * (10 / real G), real i * (10 / real G)),
                   (real (j + 1) * (10 / real G), real i * (10 / real G)))
          \<or> ig ! i ! j \<noteq> ig ! (i + 1) ! j
            \<and> s = ((real j * (10 / real G), real i * (10 / real G)),
                   (real j * (10 / real G), real (i + 1) * (10 / real G)))"
    using k(2,3) unfolding kk
    by (cases v) (auto simp: differs_def segment_of_def h_line_def v_line_def)
  show ?thesis using r c g g' by blast
qed

theorem C5_segment_endpoints_witness:
  "shape 2 [[0, 1], [0, 1]] \<and> ((0, 0), (5, 0)) \<in> set (boundary_scan 2 [[0, 1], [0, 1]])
   \<and> (\<exists>i j. i < (1::nat) \<and> j < (1::nat)
         \<and> grid_points (\<lambda>x. x) 2 ! (i * 2 + j) = (real j * 10, real i * 10))"
proof -
  have s: "shape 2 [[0, 1], [0, 1]]" by (simp add: shape_def)
  have m: "((0, 0), (5, 0)) \<in> set (boundary_scan 2 [[0, 1], [0, 1]])"
    by (simp add: boundary_scan_def cell_lines_def)
  from C5_segment_endpoints[OF s m, of "\<lambda>x. x"]
  have "\<exists>i j. i < (1::nat) \<and> j < (1::nat)
         \<and> grid_points (\<lambda>x. x) 2 ! (i * 2 + j) = (real j * 10, real i * 10)"
    by auto
  with s m show ?thesis by blast
qed

text \<open>The claim as stated fails: for \<open>G = 2\<close> the sample points of the differing cells
  \<open>(0, 0)\<close> and \<open>(0, 1)\<close> are \<open>(0, 0)\<close> and \<open>(10, 0)\<close>, 10 apart, and the line emitted for them
  runs from \<open>(0, 0)\<close> to \<open>(5, 0)\<close>: a step of \<open>10 / G = 5\<close>, along the lower edge of cell
  \<open>(0, 0)\<close> and not along the edge \<open>x = 5\<close> the two cells share. (Every number of this
  example is a float, so no operation rounds.)\<close>

theorem C5_spacing_counterexample:
  "shape 2 [[0, 1], [0, 1]]
   \<and> boundary_scan 2 [[0, 1], [0, 1]] = [((0, 0), (5, 0))]
   \<and> grid_points (\<lambda>x. x) 2 = [(0, 0), (10, 0), (0, 10), (10, 10)]"
  by (simp add: shape_def boundary_scan_def cell_lines_def grid_points_def linspace_def upt_rec)

section \<open>The grid classifier: nearest site and colour index\<close>

lemma argmin_from_spec:
  assumes "length pre = k" "bi < k" "bv = pre ! bi"
    "\<forall>m<k. bv \<le> pre ! m" "\<forall>m<bi. bv < pre ! m"
  shows "let r = argmin_from ds k bi bv in
           r < length (pre @ ds)
           \<and> (\<forall>m<length (pre @ ds). (pre @ ds) ! r \<le> (pre @ ds) ! m)
           \<and> (\<forall>m<r. (pre @ ds) ! r < (pre @ ds) ! m)"
  using assms
proof (induction ds arbitrary: pre k bi bv)
  case Nil
  then show ?case by (simp add: Let_def)
next
  case (Cons d ds)
  show ?case
  proof (cases "d < bv")
    case True
    have "let r = argmin_from ds (Suc k) k d in
           r < length ((pre @ [d]) @ ds)
           \<and> (\<forall>m<length ((pre @ [d]) @ ds). ((pre @ [d]) @ ds) ! r \<le> ((pre @ [d]) @ ds) ! m)
           \<and> (\<forall>m<r. ((pre @ [d]) @ ds) ! r < ((pre @ [d]) @ ds) ! m)"
    proof (rule Cons.IH)
      show "length (pre @ [d]) = Suc k" using Cons.prems(1) by simp
      show "k < Suc k" by simp
      show "d = (pre @ [d]) ! k" using Cons.prems(1) by (simp add: nth_append)
      show "\<forall>m<Suc k. d \<le> (pre @ [d]) ! m"
        using Cons.prems(1,4) True by (auto simp: nth_append less_Suc_eq)
      show "\<forall>m<k. d < (pre @ [d]) ! m"
        using Cons.prems(1,4) True by (auto simp: nth_append)
    qed
    then show ?thesis using True by simp
  next
    case False
    have "let r = argmin_from ds (Suc k) bi bv in
           r < length ((pre @ [d]) @ ds)
           \<and> (\<forall>m<length ((pre @ [d]) @ ds). ((pre @ [d]) @ ds) ! r \<le> ((pre @ [d]) @ ds) ! m)
           \<and> (\<forall>m<r. ((pre @ [d]) @ ds) ! r < ((pre @ [d]) @ ds) ! m)"
    proof (rule Cons.IH)
      show "length (pre @ [d]) = Suc k" using Cons.prems(1) by simp
      show "bi < Suc k" using Cons.prems(2) by simp
      show "bv = (pre @ [d]) ! bi" using Cons.prems(1,2,3) by (simp add: nth_append)
      show "\<forall>m<Suc k. bv \<le> (pre @ [d]) ! m"
        using Cons.prems(1,4) False by (auto simp: nth_append less_Suc_eq)
      show "\<forall>m<bi. bv < (pre @ [d]) ! m"
        using Cons.prems(1,2,5) by (auto simp: nth_append)
    qed
    then show ?thesis using False by simp
  qed
qed

lemma np_argmin_spec:
  assumes "ds \<noteq> []"
  shows "\<exists>r. np_argmin ds = Inr r \<and> r < length ds
           \<and> (\<forall>m<length ds. ds ! r \<le> ds ! m) \<and> (\<forall>m<r. ds ! r < ds ! m)"
proof -
  obtain d rest where ds: "ds = d # rest" using assms by (cases ds) auto
  have "let r = argmin_from rest 1 0 d in
           r < length ([d] @ rest)
           \<and> (\<forall>m<length ([d] @ rest). ([d] @ rest) ! r \<le> ([d] @ rest) ! m)
           \<and> (\<forall>m<r. ([d] @ rest) ! r < ([d] @ rest) ! m)"
    by (rule argmin_from_spec) auto
  then show ?thesis by (simp add: ds np_argmin_def Let_def)
qed


lemma classify_step_cell:
  "classify_step rnd G pts cols c2i (f, gp) (ig, cg) =
     (case classify_cell rnd pts cols c2i gp of
        Inl e \<Rightarrow> Inl e
      | Inr (k, ci) \<Rightarrow> Inr (grid_set ig (f div G) (f mod G) k, grid_set cg (f div G) (f mod G) ci))"
  by (simp add: classify_step_def classify_cell_def split: sum.splits option.splits)

lemma shape_grid_set:
  assumes "shape G g"
  shows "shape G (grid_set g r c v)"
proof (cases "r < length g")
  case True
  then have "length ((g ! r)[c := v]) = G"
    using assms by (simp add: shape_def list_all_iff)
  moreover have "set (g[r := (g ! r)[c := v]]) \<subseteq> insert ((g ! r)[c := v]) (set g)"
    by (rule set_update_subset_insert)
  ultimately show ?thesis
    using assms unfolding shape_def grid_set_def list_all_iff by auto
next
  case False
  then have "g[r := (g ! r)[c := v]] = g" by (simp add: list_update_beyond)
  then show ?thesis using assms by (simp add: grid_set_def)
qed

lemma grid_set_nth:
  assumes "shape G g" "r < G" "c < G" "r' < G" "c' < G"
  shows "grid_set g r c v ! r' ! c' = (if r' = r \<and> c' = c then v else g ! r' ! c')"
proof -
  have l: "length g = G" and rows: "\<And>q. q < G \<Longrightarrow> length (g ! q) = G"
    using assms(1) by (auto simp: shape_def list_all_iff)
  show ?thesis using assms(2-5) l rows[of r]
    by (auto simp: grid_set_def nth_list_update)
qed

lemma shape_zeros: "shape G (zeros G)"
  by (simp add: shape_def zeros_def list_all_iff)

lemma flat_unique:
  assumes "c < (G::nat)"
  shows "r * G + c = f \<longleftrightarrow> r = f div G \<and> c = f mod G"
  using assms by auto

lemma fold_err_classify:
  assumes "\<forall>gp \<in> set gps. \<exists>k ci. classify_cell rnd pts cols c2i gp = Inr (k, ci)"
    and "shape G ig" "shape G cg" "n + length gps \<le> G * G"
  shows "\<exists>ig' cg'. fold_err (classify_step rnd G pts cols c2i) (enumerate n gps) (ig, cg) = Inr (ig', cg')
      \<and> shape G ig' \<and> shape G cg'
      \<and> (\<forall>r<G. \<forall>c<G.
           (if n \<le> r * G + c \<and> r * G + c < n + length gps
            then classify_cell rnd pts cols c2i (gps ! (r * G + c - n)) = Inr (ig' ! r ! c, cg' ! r ! c)
            else ig' ! r ! c = ig ! r ! c \<and> cg' ! r ! c = cg ! r ! c))"
  using assms
proof (induction gps arbitrary: n ig cg)
  case Nil
  then show ?case by auto
next
  case (Cons gp gps)
  obtain k ci where cell: "classify_cell rnd pts cols c2i gp = Inr (k, ci)"
    using Cons.prems(1) by auto
  have nlt: "n < G * G" using Cons.prems(4) by simp
  then have G0: "0 < G" by (cases G) auto
  have rr: "n div G < G" using nlt by (simp add: less_mult_imp_div_less)
  have cc: "n mod G < G" using G0 by simp
  let ?ig = "grid_set ig (n div G) (n mod G) k"
  let ?cg = "grid_set cg (n div G) (n mod G) ci"
  have step: "classify_step rnd G pts cols c2i (n, gp) (ig, cg) = Inr (?ig, ?cg)"
    by (simp add: classify_step_cell cell)
  have "\<exists>ig' cg'. fold_err (classify_step rnd G pts cols c2i) (enumerate (Suc n) gps) (?ig, ?cg) = Inr (ig', cg')
      \<and> shape G ig' \<and> shape G cg'
      \<and> (\<forall>r<G. \<forall>c<G.
           (if Suc n \<le> r * G + c \<and> r * G + c < Suc n + length gps
            then classify_cell rnd pts cols c2i (gps ! (r * G + c - Suc n)) = Inr (ig' ! r ! c, cg' ! r ! c)
            else ig' ! r ! c = ?ig ! r ! c \<and> cg' ! r ! c = ?cg ! r ! c))"
    using Cons.prems by (intro Cons.IH shape_grid_set) auto
  then obtain ig' cg' where
    f: "fold_err (classify_step rnd G pts cols c2i) (enumerate (Suc n) gps) (?ig, ?cg) = Inr (ig', cg')"
    and s: "shape G ig'" "shape G cg'"
    and v: "\<And>r c. r < G \<Longrightarrow> c < G \<Longrightarrow>
           (if Suc n \<le> r * G + c \<and> r * G + c < Suc n + length gps
            then classify_cell rnd pts cols c2i (gps ! (r * G + c - Suc n)) = Inr (ig' ! r ! c, cg' ! r ! c)
            else ig' ! r ! c = ?ig ! r ! c \<and> cg' ! r ! c = ?cg ! r ! c)"
    by blast
  have "(if n \<le> r * G + c \<and> r * G + c < n + length (gp # gps)
            then classify_cell rnd pts cols c2i ((gp # gps) ! (r * G + c - n)) = Inr (ig' ! r ! c, cg' ! r ! c)
            else ig' ! r ! c = ig ! r ! c \<and> cg' ! r ! c = cg ! r ! c)"
    if r: "r < G" and c: "c < G" for r c
  proof (cases "r * G + c = n")
    case True
    then have "r = n div G" "c = n mod G" using flat_unique[OF c, of r n] by auto
    then show ?thesis
      using v[OF r c] True rr cc cell
        grid_set_nth[OF Cons.prems(2) rr cc rr cc, of k]
        grid_set_nth[OF Cons.prems(3) rr cc rr cc, of ci]
      by simp
  next
    case False
    then have ne: "\<not> (r = n div G \<and> c = n mod G)" using flat_unique[OF c, of r n] by auto
    have g1: "?ig ! r ! c = ig ! r ! c"
      using grid_set_nth[OF Cons.prems(2) rr cc r c, of k] ne by simp
    have g2: "?cg ! r ! c = cg ! r ! c"
      using grid_set_nth[OF Cons.prems(3) rr cc r c, of ci] ne by simp
    show ?thesis
    proof (cases "Suc n \<le> r * G + c \<and> r * G + c < Suc n + length gps")
      case True
      then obtain q where q: "r * G + c - n = Suc q" "r * G + c - Suc n = q"
        by (cases "r * G + c - n") auto
      then have "(gp # gps) ! (r * G + c - n) = gps ! (r * G + c - Suc n)"
        by simp
      then show ?thesis using v[OF r c] True by simp
    next
      case F2: False
      then have out: "\<not> (n \<le> r * G + c \<and> r * G + c < n + length (gp # gps))"
        using False by auto
      have "ig' ! r ! c = ?ig ! r ! c \<and> cg' ! r ! c = ?cg ! r ! c"
        using v[OF r c] F2 by (simp only: if_False)
      then have "ig' ! r ! c = ig ! r ! c \<and> cg' ! r ! c = cg ! r ! c"
        by (simp only: g1 g2)
      then show ?thesis by (simp only: out if_False)
    qed
  qed
  then show ?case using f s step by simp
qed


lemma classify_grid_cells:
  assumes "\<forall>gp \<in> set (grid_points rnd G). \<exists>k ci. classify_cell rnd pts cols c2i gp = Inr (k, ci)"
  shows "\<exists>ig cg. classify_grid rnd G pts cols c2i = Inr (ig, cg) \<and> shape G ig \<and> shape G cg
      \<and> (\<forall>r<G. \<forall>c<G.
            classify_cell rnd pts cols c2i (grid_points rnd G ! (r * G + c)) = Inr (ig ! r ! c, cg ! r ! c))"
proof -
  from fold_err_classify[OF assms shape_zeros shape_zeros, of 0 G]
  obtain ig cg where f: "classify_grid rnd G pts cols c2i = Inr (ig, cg)"
    and s: "shape G ig" "shape G cg"
    and v: "\<And>r c. r < G \<Longrightarrow> c < G \<Longrightarrow>
        (if 0 \<le> r * G + c \<and> r * G + c < 0 + length (grid_points rnd G)
         then classify_cell rnd pts cols c2i (grid_points rnd G ! (r * G + c - 0)) = Inr (ig ! r ! c, cg ! r ! c)
         else ig ! r ! c = zeros G ! r ! c \<and> cg ! r ! c = zeros G ! r ! c)"
    unfolding classify_grid_def by (auto simp: length_grid_points)
  have "classify_cell rnd pts cols c2i (grid_points rnd G ! (r * G + c)) = Inr (ig ! r ! c, cg ! r ! c)"
    if "r < G" "c < G" for r c
    using v[OF that] flat_index[OF that(2,1)] by (simp add: length_grid_points)
  then show ?thesis using f s by blast
qed


lemma classify_grid_fails:
  assumes "0 < G" "\<And>gp. classify_cell rnd pts cols c2i gp = Inl e"
  shows "classify_grid rnd G pts cols c2i = Inl e"
proof -
  have "grid_points rnd G \<noteq> []" using assms(1) by (simp add: grid_points_def Let_def)
  then obtain gp rest where g: "grid_points rnd G = gp # rest" by (cases "grid_points rnd G") auto
  show ?thesis
    using assms(2)[of gp] by (simp add: classify_grid_def g zeros_def classify_step_cell)
qed

lemma classify_cell_Inr:
  assumes "classify_cell rnd pts cols c2i gp = Inr (k, ci)"
  shows "np_argmin (sq_dists rnd pts gp) = Inr k" "k < length cols" "c2i (cols ! k) = Some ci"
  using assms by (auto simp: classify_cell_def split: sum.splits if_splits option.splits)



lemma dict_of_snoc: "dict_of n (xs @ [x]) m = (dict_of n xs m)(x \<mapsto> n + length xs)"
  by (simp add: dict_of_def enumerate_append_eq)

lemma dict_of_Some:
  assumes "dict_of n xs Map.empty c = Some i"
  shows "n \<le> i \<and> i < n + length xs \<and> xs ! (i - n) = c"
  using assms
proof (induction xs arbitrary: i rule: rev_induct)
  case Nil
  then show ?case by (simp add: dict_of_def)
next
  case (snoc x xs)
  show ?case
  proof (cases "c = x")
    case True
    then show ?thesis using snoc.prems by (auto simp: dict_of_snoc)
  next
    case False
    then have "dict_of n xs Map.empty c = Some i" using snoc.prems by (simp add: dict_of_snoc)
    from snoc.IH[OF this] show ?thesis by (auto simp: nth_append)
  qed
qed

lemma dict_of_mem:
  assumes "c \<in> set xs"
  shows "\<exists>i. dict_of n xs Map.empty c = Some i"
  using assms
proof (induction xs rule: rev_induct)
  case Nil
  then show ?case by simp
next
  case (snoc x xs)
  then show ?case by (cases "c = x") (auto simp: dict_of_snoc)
qed

lemma dict_of_distinct:
  assumes "distinct xs" "k < length xs"
  shows "dict_of n xs Map.empty (xs ! k) = Some (n + k)"
  using assms
proof (induction xs rule: rev_induct)
  case Nil
  then show ?case by simp
next
  case (snoc x xs)
  show ?case
  proof (cases "k = length xs")
    case True
    then show ?thesis by (simp add: dict_of_snoc)
  next
    case False
    then have k: "k < length xs" using snoc.prems(2) by simp
    then have "xs ! k \<noteq> x" using snoc.prems(1) by auto
    then show ?thesis using snoc.IH k snoc.prems(1) by (simp add: dict_of_snoc nth_append)
  qed
qed

lemma color_to_index_Some:
  assumes "color_to_index pool K c = Some i"
  shows "i < length (py_take K pool) \<and> py_take K pool ! i = c"
  using dict_of_Some[of 0 "py_take K pool" c i] assms
  by (simp add: color_to_index_def dict_of_def)

lemma color_to_index_mem:
  assumes "c \<in> set (py_take K pool)"
  shows "\<exists>i. color_to_index pool K c = Some i"
  using dict_of_mem[OF assms, of 0] by (simp add: color_to_index_def dict_of_def)

lemma color_to_index_distinct:
  assumes "distinct (py_take K pool)" "k < length (py_take K pool)"
  shows "color_to_index pool K (py_take K pool ! k) = Some k"
  using dict_of_distinct[OF assms, of 0] by (simp add: color_to_index_def dict_of_def)

section \<open>Colour strings, quantisation and distances\<close>

lemma hexval_hexdigit: "d < 16 \<Longrightarrow> hexval (hexdigit d) = Some d"
proof -
  assume "d < 16"
  then have "d < Suc (Suc (Suc (Suc (Suc (Suc (Suc (Suc (Suc (Suc (Suc (Suc (Suc (Suc (Suc (Suc 0)))))))))))))))"
    by simp
  then consider "d = 0" | "d = 1" | "d = 2" | "d = 3" | "d = 4" | "d = 5" | "d = 6" | "d = 7"
    | "d = 8" | "d = 9" | "d = 10" | "d = 11" | "d = 12" | "d = 13" | "d = 14" | "d = 15"
    unfolding less_Suc_eq by fastforce
  then show ?thesis
    by cases (simp_all add: hexval_def hexdigit_def)
qed

lemma hexstr_byte:
  assumes "n < 256"
  shows "hexstr n = (if n < 16 then [hexdigit n] else [hexdigit (n div 16), hexdigit (n mod 16)])"
proof (cases "n < 16")
  case True
  then show ?thesis by (simp add: hexstr_small)
next
  case False
  have "n div 16 < 16" using assms by simp
  then show ?thesis using False by (subst hexstr.simps) (simp add: hexstr_small)
qed

lemma hexdigit_0: "hexdigit 0 = CHR ''0''"
  by (simp add: hexdigit_def)

lemma fmt02x_byte:
  assumes "0 \<le> n" "n < 256"
  shows "fmt02x n = [hexdigit (nat n div 16), hexdigit (nat n mod 16)]"
proof -
  have "nat n < 256" using assms by simp
  from hexstr_byte[OF this] show ?thesis
    using assms(1) by (auto simp: fmt02x_def Let_def hexdigit_0)
qed

lemma hexpair_fmt:
  assumes "0 \<le> n" "n < 256"
  shows "hexpair (hexdigit (nat n div 16)) (hexdigit (nat n mod 16)) = Some (nat n)"
proof -
  have a: "nat n div 16 < 16" using assms by simp
  have b: "nat n mod 16 < 16" by simp
  show ?thesis by (simp add: hexpair_def hexval_hexdigit[OF a] hexval_hexdigit[OF b])
qed

lemma rounding_unit:
  assumes "rounding rnd" "0 \<le> c" "c < 1"
  shows "0 \<le> rnd (c * 255)" "rnd (c * 255) \<le> 255"
proof -
  have m: "\<And>x y. x \<le> y \<Longrightarrow> rnd x \<le> rnd y" and f: "\<And>k::nat. k \<le> 255 \<Longrightarrow> rnd (real k) = real k"
    using assms(1) by (auto simp: rounding_def)
  have "rnd (real 0) \<le> rnd (c * 255)" using assms(2) by (intro m) simp
  then show "0 \<le> rnd (c * 255)" using f[of 0] by simp
  have "rnd (c * 255) \<le> rnd (real 255)" using assms(3) by (intro m) simp
  then show "rnd (c * 255) \<le> 255" using f[of 255] by simp
qed

lemma rounding_byte:
  assumes "rounding rnd" "0 \<le> c" "c < 1"
  shows "0 \<le> py_int (rnd (c * 255))" "py_int (rnd (c * 255)) < 256"
    and "\<bar>c - real_of_int (py_int (rnd (c * 255))) / 255\<bar> \<le> 1 / 255"
proof -
  have m: "\<And>x y. x \<le> y \<Longrightarrow> rnd x \<le> rnd y" and f: "\<And>k::nat. k \<le> 255 \<Longrightarrow> rnd (real k) = real k"
    using assms(1) by (auto simp: rounding_def)
  note v = rounding_unit[OF assms]
  have p: "py_int (rnd (c * 255)) = \<lfloor>rnd (c * 255)\<rfloor>" using v(1) by (simp add: py_int_def)
  show "0 \<le> py_int (rnd (c * 255))" using v(1) by (simp add: p)
  have "\<lfloor>rnd (c * 255)\<rfloor> \<le> 255" using v(2) by (simp add: floor_le_iff)
  then show "py_int (rnd (c * 255)) < 256" by (simp add: p)
  define k where "k = nat \<lfloor>c * 255\<rfloor>"
  have c0: "0 \<le> c * 255" and c1: "c * 255 < 255" using assms(2,3) by simp_all
  have fl: "0 \<le> \<lfloor>c * 255\<rfloor>" "\<lfloor>c * 255\<rfloor> < 255" using c0 c1 by (simp_all add: floor_less_iff)
  have k1: "real k = real_of_int \<lfloor>c * 255\<rfloor>" unfolding k_def using fl(1) by simp
  have k: "real k \<le> c * 255" "c * 255 < real k + 1" "k < 255"
  proof -
    show "real k \<le> c * 255" unfolding k1 by (rule of_int_floor_le)
    show "c * 255 < real k + 1" unfolding k1 by linarith
    show "k < 255" unfolding k_def using fl by linarith
  qed
  have "rnd (real k) \<le> rnd (c * 255)" by (rule m[OF k(1)])
  then have lo: "real k \<le> rnd (c * 255)" using f[of k] k(3) by simp
  have "c * 255 \<le> real (Suc k)" using k(2) by simp
  then have "rnd (c * 255) \<le> rnd (real (Suc k))" by (rule m)
  then have hi: "rnd (c * 255) \<le> real k + 1" using f[of "Suc k"] k(3) by simp
  have n1: "int k \<le> \<lfloor>rnd (c * 255)\<rfloor>" using lo by (simp add: le_floor_iff)
  have n2: "\<lfloor>rnd (c * 255)\<rfloor> \<le> int k + 1" using hi by (simp add: floor_le_iff)
  have r1: "real k \<le> real_of_int \<lfloor>rnd (c * 255)\<rfloor>" using n1 by linarith
  have r2: "real_of_int \<lfloor>rnd (c * 255)\<rfloor> \<le> real k + 1" using n2 by linarith
  have "\<bar>c - real_of_int \<lfloor>rnd (c * 255)\<rfloor> / 255\<bar> \<le> 1 / 255" using r1 r2 k(1,2) by linarith
  then show "\<bar>c - real_of_int (py_int (rnd (c * 255))) / 255\<bar> \<le> 1 / 255" by (simp only: p)
qed

lemma to_rgb_bytes:
  assumes "0 \<le> nr" "nr < 256" "0 \<le> ng" "ng < 256" "0 \<le> nb" "nb < 256"
  shows "to_rgb rnd (CHR ''#'' # fmt02x nr @ fmt02x ng @ fmt02x nb)
       = Some (rnd (real_of_int nr / 255), rnd (real_of_int ng / 255), rnd (real_of_int nb / 255))"
  using assms(1,3,5)
  by (simp add: fmt02x_byte[OF assms(1,2)] fmt02x_byte[OF assms(3,4)] fmt02x_byte[OF assms(5,6)]
      hexpair_fmt[OF assms(1,2)] hexpair_fmt[OF assms(3,4)] hexpair_fmt[OF assms(5,6)])

lemma to_rgb_hex_color:
  assumes "rounding rnd" "unit_rgb (r, g, b)"
  shows "to_rgb rnd (hex_color rnd (r, g, b))
       = Some (rnd (real_of_int (py_int (rnd (r * 255))) / 255),
               rnd (real_of_int (py_int (rnd (g * 255))) / 255),
               rnd (real_of_int (py_int (rnd (b * 255))) / 255))"
proof -
  have u: "0 \<le> r" "r < 1" "0 \<le> g" "g < 1" "0 \<le> b" "b < 1"
    using assms(2) by (auto simp: unit_rgb_def)
  note R = rounding_byte(1,2)[OF assms(1) u(1,2)] and G = rounding_byte(1,2)[OF assms(1) u(3,4)]
    and B = rounding_byte(1,2)[OF assms(1) u(5,6)]
  show ?thesis unfolding hex_color_def prod.case
    by (rule to_rgb_bytes[OF R(1) R(2) G(1) G(2) B(1) B(2)])
qed

lemma sqrt3_triangle:
  fixes u1 u2 u3 v1 v2 v3 :: real
  shows "sqrt ((u1 + v1)\<^sup>2 + (u2 + v2)\<^sup>2 + (u3 + v3)\<^sup>2)
      \<le> sqrt (u1\<^sup>2 + u2\<^sup>2 + u3\<^sup>2) + sqrt (v1\<^sup>2 + v2\<^sup>2 + v3\<^sup>2)"
proof -
  define U V where UV: "U = sqrt (u1\<^sup>2 + u2\<^sup>2)" "V = sqrt (v1\<^sup>2 + v2\<^sup>2)"
  have U2: "U\<^sup>2 = u1\<^sup>2 + u2\<^sup>2" and V2: "V\<^sup>2 = v1\<^sup>2 + v2\<^sup>2" by (simp_all add: UV)
  have UV0: "0 \<le> U + V" by (simp add: UV)
  have "sqrt ((u1 + v1)\<^sup>2 + (u2 + v2)\<^sup>2) \<le> U + V"
    unfolding UV by (rule real_sqrt_sum_squares_triangle_ineq)
  then have "(sqrt ((u1 + v1)\<^sup>2 + (u2 + v2)\<^sup>2))\<^sup>2 \<le> (U + V)\<^sup>2"
    by (rule power_mono) simp
  then have "(u1 + v1)\<^sup>2 + (u2 + v2)\<^sup>2 \<le> (U + V)\<^sup>2" by simp
  then have "sqrt ((u1 + v1)\<^sup>2 + (u2 + v2)\<^sup>2 + (u3 + v3)\<^sup>2) \<le> sqrt ((U + V)\<^sup>2 + (u3 + v3)\<^sup>2)"
    by (simp only: real_sqrt_le_iff add_le_cancel_right)
  also have "\<dots> \<le> sqrt (U\<^sup>2 + u3\<^sup>2) + sqrt (V\<^sup>2 + v3\<^sup>2)"
    by (rule real_sqrt_sum_squares_triangle_ineq)
  finally show ?thesis by (simp only: U2 V2)
qed

lemma sq_small:
  assumes "\<bar>x\<bar> \<le> (1 / 255 :: real)"
  shows "x\<^sup>2 \<le> (1 / 255)\<^sup>2"
proof -
  have "\<bar>x\<bar>\<^sup>2 \<le> (1 / 255)\<^sup>2" using assms by (intro power_mono) simp_all
  then show ?thesis by simp
qed

text \<open>A point moved by at most \<open>1 / 255\<close> in each channel comes closer to any other point
  by at most \<open>sqrt 3 / 255\<close> (exact Euclidean distances).\<close>

lemma stored_near:
  fixes x y z r g b qr qg qb :: real
  assumes "\<bar>r - qr\<bar> \<le> 1 / 255" "\<bar>g - qg\<bar> \<le> 1 / 255" "\<bar>b - qb\<bar> \<le> 1 / 255"
  shows "sqrt ((x - r)\<^sup>2 + (y - g)\<^sup>2 + (z - b)\<^sup>2) - sqrt 3 / 255
       \<le> sqrt ((x - qr)\<^sup>2 + (y - qg)\<^sup>2 + (z - qb)\<^sup>2)"
proof -
  have e: "x - r = (x - qr) + (qr - r)" "y - g = (y - qg) + (qg - g)" "z - b = (z - qb) + (qb - b)"
    by simp_all
  have s: "\<bar>qr - r\<bar> \<le> 1 / 255" "\<bar>qg - g\<bar> \<le> 1 / 255" "\<bar>qb - b\<bar> \<le> 1 / 255"
    using assms by (simp_all add: abs_minus_commute)
  have "(qr - r)\<^sup>2 + (qg - g)\<^sup>2 + (qb - b)\<^sup>2 \<le> (1 / 255)\<^sup>2 + (1 / 255)\<^sup>2 + (1 / 255)\<^sup>2"
    using sq_small[OF s(1)] sq_small[OF s(2)] sq_small[OF s(3)] by linarith
  also have "\<dots> = 3 / 255\<^sup>2" by (simp add: power2_eq_square)
  finally have "sqrt ((qr - r)\<^sup>2 + (qg - g)\<^sup>2 + (qb - b)\<^sup>2) \<le> sqrt (3 / 255\<^sup>2)"
    by (simp only: real_sqrt_le_iff)
  also have "sqrt (3 / 255\<^sup>2) = sqrt 3 / 255"
    by (simp only: real_sqrt_divide real_sqrt_abs abs_numeral)
  finally have q: "sqrt ((qr - r)\<^sup>2 + (qg - g)\<^sup>2 + (qb - b)\<^sup>2) \<le> sqrt 3 / 255" .
  have "sqrt ((x - r)\<^sup>2 + (y - g)\<^sup>2 + (z - b)\<^sup>2)
      \<le> sqrt ((x - qr)\<^sup>2 + (y - qg)\<^sup>2 + (z - qb)\<^sup>2) + sqrt ((qr - r)\<^sup>2 + (qg - g)\<^sup>2 + (qb - b)\<^sup>2)"
    by (subst e(1), subst e(2), subst e(3)) (rule sqrt3_triangle)
  then show ?thesis using q by linarith
qed

text \<open>The test of line 61 in exact arithmetic, without the root.\<close>

lemma color_dist_less_threshold:
  "color_dist (\<lambda>x. x) (r1, g1, b1) (r2, g2, b2) < threshold (\<lambda>x. x)
     \<longleftrightarrow> (r1 - r2)\<^sup>2 + (g1 - g2)\<^sup>2 + (b1 - b2)\<^sup>2 < 1 / 100"
proof -
  have "sqrt (1 / 100) = sqrt ((1 / 10)\<^sup>2)" by (simp add: power2_eq_square)
  also have "\<dots> = 1 / 10" by (simp only: real_sqrt_abs)
  finally have t: "threshold (\<lambda>x. x) = sqrt (1 / 100)" by (simp add: threshold_def)
  show ?thesis
    unfolding color_dist_def prod.case t by (rule real_sqrt_less_iff)
qed

lemma accurateD:
  assumes "accurate rnd" "\<bar>x\<bar> \<le> 4"
  shows "rnd x \<le> x + 1 / 1000000000" "x - 1 / 1000000000 \<le> rnd x"
proof -
  have "\<bar>rnd x - x\<bar> \<le> 1 / 1000000000" using assms unfolding accurate_def by blast
  then show "rnd x \<le> x + 1 / 1000000000" "x - 1 / 1000000000 \<le> rnd x" by linarith+
qed

text \<open>One squared difference: the computed value exceeds the exact one by little.\<close>

lemma square_error:
  fixes a e q :: real
  assumes "accurate rnd" "0 \<le> a" "a < 1" "0 \<le> q" "q \<le> 1" "\<bar>e - q\<bar> \<le> 1 / 1000000000"
  shows "rnd ((rnd (a - e))\<^sup>2) \<le> (a - q)\<^sup>2 + 6 / 1000000000"
    and "- (1 / 1000000000) \<le> rnd ((rnd (a - e))\<^sup>2)"
    and "rnd ((rnd (a - e))\<^sup>2) \<le> 11 / 10"
proof -
  let ?d = "rnd (a - e)"
  let ?y = "a - q"
  have x4: "\<bar>a - e\<bar> \<le> 4" using assms(2-6) by linarith
  note dx = accurateD[OF assms(1) x4]
  have h: "\<bar>?d - ?y\<bar> \<le> 2 / 1000000000" using dx assms(6) by linarith
  have y1: "\<bar>?y\<bar> \<le> 1" using assms(2-5) by linarith
  have s: "\<bar>?d + ?y\<bar> \<le> 21 / 10" using h y1 by linarith
  have "\<bar>?d - ?y\<bar> * \<bar>?d + ?y\<bar> \<le> (2 / 1000000000) * (21 / 10)"
    by (rule mult_mono[OF h s]) simp_all
  then have p: "\<bar>(?d - ?y) * (?d + ?y)\<bar> \<le> 42 / 10000000000" by (simp add: abs_mult)
  have e: "?d\<^sup>2 = ?y\<^sup>2 + (?d - ?y) * (?d + ?y)" by (simp add: power2_eq_square algebra_simps)
  have d2: "?d\<^sup>2 \<le> ?y\<^sup>2 + 5 / 1000000000" using p unfolding e by linarith
  have y2: "?y\<^sup>2 \<le> 1" using y1 by (simp add: abs_square_le_1)
  have d0: "0 \<le> ?d\<^sup>2" by simp
  have d24: "\<bar>?d\<^sup>2\<bar> \<le> 4" using d2 y2 d0 by linarith
  note sd = accurateD[OF assms(1) d24]
  show "rnd (?d\<^sup>2) \<le> ?y\<^sup>2 + 6 / 1000000000" using sd(1) d2 by linarith
  show "- (1 / 1000000000) \<le> rnd (?d\<^sup>2)" using sd(2) d0 by linarith
  show "rnd (?d\<^sup>2) \<le> 11 / 10" using sd(1) d2 y2 by linarith
qed

text \<open>The distance of line 60 against the exact Euclidean distance.\<close>

lemma computed_far:
  fixes a1 a2 a3 e1 e2 e3 q1 q2 q3 :: real
  assumes "accurate rnd"
    and "0 \<le> a1" "a1 < 1" "0 \<le> a2" "a2 < 1" "0 \<le> a3" "a3 < 1"
    and "0 \<le> q1" "q1 \<le> 1" "0 \<le> q2" "q2 \<le> 1" "0 \<le> q3" "q3 \<le> 1"
    and "\<bar>e1 - q1\<bar> \<le> 1 / 1000000000" "\<bar>e2 - q2\<bar> \<le> 1 / 1000000000" "\<bar>e3 - q3\<bar> \<le> 1 / 1000000000"
    and "rnd (1 / 10) \<le> rnd (sqrt (rnd (rnd (rnd ((rnd (a1 - e1))\<^sup>2) + rnd ((rnd (a2 - e2))\<^sup>2))
                                   + rnd ((rnd (a3 - e3))\<^sup>2))))"
  shows "1 / 10 - 1 / 1000000 \<le> sqrt ((a1 - q1)\<^sup>2 + (a2 - q2)\<^sup>2 + (a3 - q3)\<^sup>2)"
proof -
  let ?s1 = "rnd ((rnd (a1 - e1))\<^sup>2)" and ?s2 = "rnd ((rnd (a2 - e2))\<^sup>2)"
    and ?s3 = "rnd ((rnd (a3 - e3))\<^sup>2)"
  let ?t = "rnd (?s1 + ?s2)"
  let ?S = "rnd (?t + ?s3)"
  let ?E = "(a1 - q1)\<^sup>2 + (a2 - q2)\<^sup>2 + (a3 - q3)\<^sup>2"
  note A = square_error[OF assms(1) assms(2,3) assms(8,9) assms(14)]
    and B = square_error[OF assms(1) assms(4,5) assms(10,11) assms(15)]
    and C = square_error[OF assms(1) assms(6,7) assms(12,13) assms(16)]
  have t4: "\<bar>?s1 + ?s2\<bar> \<le> 4" using A(2,3) B(2,3) by linarith
  note T = accurateD[OF assms(1) t4]
  have S4: "\<bar>?t + ?s3\<bar> \<le> 4" using T A(2,3) B(2,3) C(2,3) by linarith
  note SS = accurateD[OF assms(1) S4]
  have Sup: "?S \<le> ?E + 20 / 1000000000" using SS(1) T(1) A(1) B(1) C(1) by linarith
  have Sb: "?S \<le> 4" "- 1 \<le> ?S" using SS T A(2,3) B(2,3) C(2,3) by linarith+
  have r1: "sqrt ?S \<le> 2"
  proof -
    have "sqrt ?S \<le> sqrt 4" using Sb(1) by (simp only: real_sqrt_le_iff)
    then show ?thesis by simp
  qed
  have r2: "- 1 \<le> sqrt ?S"
  proof -
    have "sqrt (- 1) \<le> sqrt ?S" using Sb(2) by (simp only: real_sqrt_le_iff)
    then show ?thesis by (simp add: real_sqrt_minus)
  qed
  have r4: "\<bar>sqrt ?S\<bar> \<le> 4" using r1 r2 by linarith
  note R = accurateD[OF assms(1) r4]
  have th: "\<bar>1 / 10 :: real\<bar> \<le> 4" by simp
  note TH = accurateD[OF assms(1) th]
  have low: "1 / 10 - 2 / 1000000000 \<le> sqrt ?S" using R(1) TH(2) assms(17) by linarith
  have "(1 / 10 - 2 / 1000000000)\<^sup>2 \<le> (sqrt ?S)\<^sup>2"
    using low by (intro power_mono) simp_all
  moreover have S0: "0 \<le> ?S"
  proof (rule ccontr)
    assume "\<not> 0 \<le> ?S"
    then have "sqrt ?S < 0" by (simp add: real_sqrt_lt_0_iff)
    then show False using low by linarith
  qed
  ultimately have "(1 / 10 - 2 / 1000000000)\<^sup>2 \<le> ?S" by simp
  then have "(1 / 10 - 2 / 1000000000)\<^sup>2 - 20 / 1000000000 \<le> ?E" using Sup by linarith
  moreover have "(1 / 10 - 1 / 1000000 :: real)\<^sup>2 \<le> (1 / 10 - 2 / 1000000000)\<^sup>2 - 20 / 1000000000"
    by (simp add: power2_eq_square)
  ultimately have "(1 / 10 - 1 / 1000000)\<^sup>2 \<le> ?E" by linarith
  then have "sqrt ((1 / 10 - 1 / 1000000)\<^sup>2) \<le> sqrt ?E" by (simp only: real_sqrt_le_iff)
  then show ?thesis by simp
qed

lemma sqrt3_bounds: "1732 / 1000 < sqrt 3" "sqrt 3 < 17321 / 10000"
proof -
  have "sqrt ((1732 / 1000)\<^sup>2) < sqrt 3"
    by (simp only: real_sqrt_less_iff) (simp add: power2_eq_square)
  then show "1732 / 1000 < sqrt 3" by simp
  have "sqrt 3 < sqrt ((17321 / 10000)\<^sup>2)"
    by (simp only: real_sqrt_less_iff) (simp add: power2_eq_square)
  then show "sqrt 3 < 17321 / 10000" by simp
qed

text \<open>The squared distance of two 8-bit colours is a whole number of \<open>1 / 255\<^sup>2\<close>; between
  564 and 565 of them there is none.\<close>

lemma lattice_gap:
  fixes n1 n2 n3 m1 m2 m3 :: int
  assumes "1 / 10 - 1 / 1000000 - sqrt 3 / 255
      \<le> sqrt ((real_of_int n1 / 255 - real_of_int m1 / 255)\<^sup>2
              + (real_of_int n2 / 255 - real_of_int m2 / 255)\<^sup>2
              + (real_of_int n3 / 255 - real_of_int m3 / 255)\<^sup>2)"
  shows "1 / 10 - sqrt 3 / 255
      < sqrt ((real_of_int n1 / 255 - real_of_int m1 / 255)\<^sup>2
              + (real_of_int n2 / 255 - real_of_int m2 / 255)\<^sup>2
              + (real_of_int n3 / 255 - real_of_int m3 / 255)\<^sup>2)"
proof -
  define k where "k = (n1 - m1)\<^sup>2 + (n2 - m2)\<^sup>2 + (n3 - m3)\<^sup>2"
  have e: "(real_of_int n1 / 255 - real_of_int m1 / 255)\<^sup>2
              + (real_of_int n2 / 255 - real_of_int m2 / 255)\<^sup>2
              + (real_of_int n3 / 255 - real_of_int m3 / 255)\<^sup>2 = real_of_int k / 255\<^sup>2"
    by (simp add: k_def power2_eq_square field_simps)
  have d: "sqrt (real_of_int k / 255\<^sup>2) = sqrt (real_of_int k) / 255"
    by (simp only: real_sqrt_divide real_sqrt_abs abs_numeral)
  have low: "1 / 10 - 1 / 1000000 - sqrt 3 / 255 \<le> sqrt (real_of_int k) / 255"
    using assms unfolding e d .
  have "23750 / 1000 < sqrt (real_of_int k)" using low sqrt3_bounds(2) by (simp add: field_simps)
  then have "(23750 / 1000)\<^sup>2 < (sqrt (real_of_int k))\<^sup>2"
    by (intro power_strict_mono) simp_all
  moreover have k0: "0 \<le> k" by (simp add: k_def)
  ultimately have "(23750 / 1000 :: real)\<^sup>2 < real_of_int k" by simp
  then have "564 < real_of_int k" by (simp add: power2_eq_square)
  then have "565 \<le> k" by linarith
  then have "sqrt 565 \<le> sqrt (real_of_int k)" by simp
  moreover have "23769 / 1000 < sqrt 565"
  proof -
    have "sqrt ((23769 / 1000)\<^sup>2) < sqrt 565"
      by (simp only: real_sqrt_less_iff) (simp add: power2_eq_square)
    then show ?thesis by simp
  qed
  ultimately have "23769 / 1000 < sqrt (real_of_int k)" by linarith
  then have "1 / 10 - sqrt 3 / 255 < sqrt (real_of_int k) / 255"
    using sqrt3_bounds(1) by (simp add: field_simps)
  then show ?thesis unfolding e d .
qed


lemma hexval_range: "hexval c = Some v \<Longrightarrow> v < 16"
  by (auto simp: hexval_def split: if_splits)

lemma hexpair_range: "hexpair a b = Some v \<Longrightarrow> v \<le> 255"
proof -
  assume h: "hexpair a b = Some v"
  then obtain x y where x: "hexval a = Some x" and y: "hexval b = Some y" and v: "v = 16 * x + y"
    by (auto simp: hexpair_def split: option.splits)
  show ?thesis using hexval_range[OF x] hexval_range[OF y] v by simp
qed

text \<open>A string \<open>to_rgb\<close> accepts holds three bytes, whatever the rounding.\<close>

lemma to_rgb_valid:
  assumes "to_rgb rnd s \<noteq> None"
  shows "\<exists>m1 m2 m3. m1 \<le> 255 \<and> m2 \<le> 255 \<and> m3 \<le> 255
     \<and> (\<forall>rnd'. to_rgb rnd' s = Some (rnd' (real m1 / 255), rnd' (real m2 / 255), rnd' (real m3 / 255)))"
proof (cases "(rnd, s)" rule: to_rgb.cases)
  case (1 rn h r1 r2 g1 g2 b1 b2)
  then have s: "s = [h, r1, r2, g1, g2, b1, b2]" by simp
  from assms obtain m1 m2 m3 where h: "h = CHR ''#''"
    and m: "hexpair r1 r2 = Some m1" "hexpair g1 g2 = Some m2" "hexpair b1 b2 = Some m3"
    unfolding s by (auto split: if_splits option.splits)
  show ?thesis
    using hexpair_range[OF m(1)] hexpair_range[OF m(2)] hexpair_range[OF m(3)]
    by (intro exI[of _ m1] exI[of _ m2] exI[of _ m3]) (simp add: s h m)
qed (use assms in simp_all)

lemma stored_far:
  fixes r g b :: real and m1 m2 m3 :: nat
  assumes "rounding rnd" "accurate rnd" "unit_rgb (r, g, b)"
    and "m1 \<le> 255" "m2 \<le> 255" "m3 \<le> 255"
    and "rnd (1 / 10) \<le> rnd (sqrt (rnd (rnd (rnd ((rnd (r - rnd (real m1 / 255)))\<^sup>2)
                                        + rnd ((rnd (g - rnd (real m2 / 255)))\<^sup>2))
                                   + rnd ((rnd (b - rnd (real m3 / 255)))\<^sup>2))))"
  shows "1 / 10 - sqrt 3 / 255
     < sqrt ((real_of_int (py_int (rnd (r * 255))) / 255 - real m1 / 255)\<^sup>2
           + (real_of_int (py_int (rnd (g * 255))) / 255 - real m2 / 255)\<^sup>2
           + (real_of_int (py_int (rnd (b * 255))) / 255 - real m3 / 255)\<^sup>2)"
proof -
  have u: "0 \<le> r" "r < 1" "0 \<le> g" "g < 1" "0 \<le> b" "b < 1"
    using assms(3) by (auto simp: unit_rgb_def)
  let ?q1 = "real m1 / 255" and ?q2 = "real m2 / 255" and ?q3 = "real m3 / 255"
  let ?p1 = "real_of_int (py_int (rnd (r * 255))) / 255"
    and ?p2 = "real_of_int (py_int (rnd (g * 255))) / 255"
    and ?p3 = "real_of_int (py_int (rnd (b * 255))) / 255"
  have q: "0 \<le> ?q1" "?q1 \<le> 1" "0 \<le> ?q2" "?q2 \<le> 1" "0 \<le> ?q3" "?q3 \<le> 1"
    using assms(4-6) by simp_all
  have e: "\<bar>rnd ?q1 - ?q1\<bar> \<le> 1 / 1000000000" "\<bar>rnd ?q2 - ?q2\<bar> \<le> 1 / 1000000000"
    "\<bar>rnd ?q3 - ?q3\<bar> \<le> 1 / 1000000000"
  proof -
    have "\<bar>?q1\<bar> \<le> 4" "\<bar>?q2\<bar> \<le> 4" "\<bar>?q3\<bar> \<le> 4" using q by linarith+
    then show "\<bar>rnd ?q1 - ?q1\<bar> \<le> 1 / 1000000000" "\<bar>rnd ?q2 - ?q2\<bar> \<le> 1 / 1000000000"
      "\<bar>rnd ?q3 - ?q3\<bar> \<le> 1 / 1000000000"
      using assms(2) unfolding accurate_def by blast+
  qed
  have far: "1 / 10 - 1 / 1000000 \<le> sqrt ((r - ?q1)\<^sup>2 + (g - ?q2)\<^sup>2 + (b - ?q3)\<^sup>2)"
    by (rule computed_far[OF assms(2) u q e assms(7)])
  note R = rounding_byte(3)[OF assms(1) u(1,2)] and G = rounding_byte(3)[OF assms(1) u(3,4)]
    and B = rounding_byte(3)[OF assms(1) u(5,6)]
  have "sqrt ((?q1 - r)\<^sup>2 + (?q2 - g)\<^sup>2 + (?q3 - b)\<^sup>2) - sqrt 3 / 255
       \<le> sqrt ((?q1 - ?p1)\<^sup>2 + (?q2 - ?p2)\<^sup>2 + (?q3 - ?p3)\<^sup>2)"
    by (rule stored_near[OF R G B])
  then have "sqrt ((r - ?q1)\<^sup>2 + (g - ?q2)\<^sup>2 + (b - ?q3)\<^sup>2) - sqrt 3 / 255
       \<le> sqrt ((?p1 - ?q1)\<^sup>2 + (?p2 - ?q2)\<^sup>2 + (?p3 - ?q3)\<^sup>2)"
    by (simp only: power2_commute[of ?q1] power2_commute[of ?q2] power2_commute[of ?q3])
  then have "1 / 10 - 1 / 1000000 - sqrt 3 / 255
       \<le> sqrt ((?p1 - ?q1)\<^sup>2 + (?p2 - ?q2)\<^sup>2 + (?p3 - ?q3)\<^sup>2)"
    using far by linarith
  then have "1 / 10 - 1 / 1000000 - sqrt 3 / 255
       \<le> sqrt ((?p1 - real_of_int (int m1) / 255)\<^sup>2 + (?p2 - real_of_int (int m2) / 255)\<^sup>2
               + (?p3 - real_of_int (int m3) / 255)\<^sup>2)"
    by simp
  from lattice_gap[OF this] show ?thesis by simp
qed

section \<open>\<open>generate_unique_color\<close>: attempts, acceptance and fallback\<close>

lemma too_close_valid:
  assumes "\<forall>e\<in>set es. conv e \<noteq> None"
  shows "too_close rnd conv c es = Inr (\<exists>e\<in>set es. color_dist rnd c (the (conv e)) < threshold rnd)"
  using assms by (induction es) auto

lemma attempt_loop_spec:
  assumes "\<forall>e\<in>set existing. conv e \<noteq> None"
  shows "\<exists>col used. attempt_loop rnd conv n rand pos existing = Inr (col, pos + used) \<and> used \<le> n
     \<and> (0 < used \<and> col = hex_color rnd (rand (pos + used - 1))
          \<and> too_close rnd conv (rand (pos + used - 1)) existing = Inr False
          \<and> (\<forall>a<used - 1. too_close rnd conv (rand (pos + a)) existing = Inr True)
        \<or> used = n \<and> col = fallback_gray
          \<and> (\<forall>a<n. too_close rnd conv (rand (pos + a)) existing = Inr True))"
proof (induction n arbitrary: pos)
  case 0
  show ?case by (intro exI[of _ fallback_gray] exI[of _ 0]) simp
next
  case (Suc n)
  show ?case
  proof (cases "\<exists>e\<in>set existing. color_dist rnd (rand pos) (the (conv e)) < threshold rnd")
    case False
    then have tc: "too_close rnd conv (rand pos) existing = Inr False"
      by (simp add: too_close_valid[OF assms])
    show ?thesis
      by (intro exI[of _ "hex_color rnd (rand pos)"] exI[of _ 1]) (simp add: tc Let_def)
  next
    case True
    then have tc: "too_close rnd conv (rand pos) existing = Inr True"
      by (simp add: too_close_valid[OF assms])
    from Suc.IH[of "Suc pos"] obtain col used where
      r: "attempt_loop rnd conv n rand (Suc pos) existing = Inr (col, Suc pos + used)" and u: "used \<le> n"
      and d: "0 < used \<and> col = hex_color rnd (rand (Suc pos + used - 1))
          \<and> too_close rnd conv (rand (Suc pos + used - 1)) existing = Inr False
          \<and> (\<forall>a<used - 1. too_close rnd conv (rand (Suc pos + a)) existing = Inr True)
        \<or> used = n \<and> col = fallback_gray
          \<and> (\<forall>a<n. too_close rnd conv (rand (Suc pos + a)) existing = Inr True)"
      by blast
    have all: "(\<forall>a<m. too_close rnd conv (rand (Suc pos + a)) existing = Inr True)
        \<Longrightarrow> (\<forall>a<Suc m. too_close rnd conv (rand (pos + a)) existing = Inr True)" for m
    proof (intro allI impI)
      fix a assume h: "\<forall>a<m. too_close rnd conv (rand (Suc pos + a)) existing = Inr True" "a < Suc m"
      show "too_close rnd conv (rand (pos + a)) existing = Inr True"
      proof (cases a)
        case 0
        then show ?thesis using tc by simp
      next
        case (Suc a')
        then show ?thesis using h by auto
      qed
    qed
    have r': "attempt_loop rnd conv (Suc n) rand pos existing = Inr (col, pos + Suc used)"
      using r tc by (simp add: Let_def)
    from d show ?thesis
    proof
      assume a: "0 < used \<and> col = hex_color rnd (rand (Suc pos + used - 1))
          \<and> too_close rnd conv (rand (Suc pos + used - 1)) existing = Inr False
          \<and> (\<forall>a<used - 1. too_close rnd conv (rand (Suc pos + a)) existing = Inr True)"
      then have "\<forall>a<Suc (used - 1). too_close rnd conv (rand (pos + a)) existing = Inr True"
        using all[of "used - 1"] by blast
      then have "\<forall>a<Suc used - 1. too_close rnd conv (rand (pos + a)) existing = Inr True"
        using a by simp
      moreover have "Suc pos + used - 1 = pos + Suc used - 1" by simp
      ultimately show ?thesis
        using r' u a by (intro exI[of _ col] exI[of _ "Suc used"]) auto
    next
      assume b: "used = n \<and> col = fallback_gray
          \<and> (\<forall>a<n. too_close rnd conv (rand (Suc pos + a)) existing = Inr True)"
      then have "\<forall>a<Suc n. too_close rnd conv (rand (pos + a)) existing = Inr True"
        using all[of n] by blast
      then show ?thesis
        using r' b by (intro exI[of _ col] exI[of _ "Suc used"]) auto
    qed
  qed
qed

lemma attempt_loop_accept:
  assumes "too_close rnd conv (rand pos) existing = Inr False"
  shows "attempt_loop rnd conv (Suc n) rand pos existing = Inr (hex_color rnd (rand pos), Suc pos)"
  using assms by (simp add: Let_def)

lemma attempt_accept:
  assumes "too_close rnd conv (rand pos) existing = Inr False"
  shows "generate_unique_color rnd conv rand pos existing = Inr (hex_color rnd (rand pos), Suc pos)"
  using attempt_loop_accept[of rnd conv rand pos existing 99] assms
  by (simp add: generate_unique_color_def max_attempts_def)

lemma attempts_all_close:
  assumes "\<And>a. too_close rnd conv (rand a) existing = Inr True"
  shows "attempt_loop rnd conv n rand pos existing = Inr (fallback_gray, pos + n)"
  using assms by (induction n arbitrary: pos) (simp_all add: Let_def)

lemma to_rgb_black: "to_rgb rnd ''#000000'' = Some (rnd 0, rnd 0, rnd 0)"
  by (simp add: hexpair_def hexval_def)

lemma to_rgb_white: "to_rgb rnd ''#FFFFFF'' = Some (rnd 1, rnd 1, rnd 1)"
  by (simp add: hexpair_def hexval_def)

lemma to_rgb_gray: "to_rgb rnd ''#808080'' = Some (rnd (128 / 255), rnd (128 / 255), rnd (128 / 255))"
  by (simp add: hexpair_def hexval_def)

lemma to_rgb_dark_red: "to_rgb rnd ''#190000'' = Some (rnd (25 / 255), rnd 0, rnd 0)"
  by (simp add: hexpair_def hexval_def)

lemma hex_color_dark_red: "hex_color (\<lambda>x. x) (101 / 1000, 0, 0) = ''#190000''"
proof -
  have "py_int (101 / 1000 * 255) = 25" by (simp add: py_int_def)
  moreover have "fmt02x 25 = ''19''" "fmt02x 0 = ''00''"
    by (simp_all add: fmt02x_byte hexdigit_def)
  ultimately show ?thesis by (simp add: hex_color_def py_int_def)
qed

text \<open>The test of lines 57-63 written out: some existing colour is nearer to the candidate
  \<open>(r, g, b)\<close> than \<open>0.1\<close>, in the distance line 60 computes.\<close>

lemma near_too_close:
  assumes "\<forall>e\<in>set es. conv e \<noteq> None"
  shows "too_close rnd conv (r, g, b) es = Inr True \<longleftrightarrow>
     (\<exists>e\<in>set es. \<exists>r' g' b'. conv e = Some (r', g', b')
        \<and> rnd (sqrt (rnd (rnd (rnd ((rnd (r - r'))\<^sup>2) + rnd ((rnd (g - g'))\<^sup>2))
                      + rnd ((rnd (b - b'))\<^sup>2)))) < rnd (1 / 10))"
proof -
  have "(\<exists>e\<in>set es. color_dist rnd (r, g, b) (the (conv e)) < threshold rnd) \<longleftrightarrow>
     (\<exists>e\<in>set es. \<exists>r' g' b'. conv e = Some (r', g', b')
        \<and> rnd (sqrt (rnd (rnd (rnd ((rnd (r - r'))\<^sup>2) + rnd ((rnd (g - g'))\<^sup>2))
                      + rnd ((rnd (b - b'))\<^sup>2)))) < rnd (1 / 10))"
    (is "?L \<longleftrightarrow> ?R")
  proof
    assume ?L
    then obtain e where e: "e \<in> set es" "color_dist rnd (r, g, b) (the (conv e)) < threshold rnd"
      by blast
    obtain er where "conv e = Some er" using assms e(1) by (cases "conv e") auto
    then obtain r' g' b' where c: "conv e = Some (r', g', b')" by (cases er) auto
    have "rnd (sqrt (rnd (rnd (rnd ((rnd (r - r'))\<^sup>2) + rnd ((rnd (g - g'))\<^sup>2))
                      + rnd ((rnd (b - b'))\<^sup>2)))) < rnd (1 / 10)"
      using e(2) by (simp add: c color_dist_def threshold_def)
    then show ?R using e(1) c by blast
  next
    assume ?R
    then obtain e r' g' b' where e: "e \<in> set es" "conv e = Some (r', g', b')"
      "rnd (sqrt (rnd (rnd (rnd ((rnd (r - r'))\<^sup>2) + rnd ((rnd (g - g'))\<^sup>2))
                      + rnd ((rnd (b - b'))\<^sup>2)))) < rnd (1 / 10)"
      by blast
    have "color_dist rnd (r, g, b) (the (conv e)) < threshold rnd"
      using e(3) by (simp add: e(2) color_dist_def threshold_def)
    then show ?L using e(1) by blast
  qed
  then show ?thesis by (simp add: too_close_valid[OF assms])
qed

lemma far_too_close:
  assumes "\<forall>e\<in>set es. conv e \<noteq> None" "too_close rnd conv (r, g, b) es = Inr False" "e \<in> set es"
  shows "\<exists>r' g' b'. conv e = Some (r', g', b')
        \<and> rnd (1 / 10) \<le> rnd (sqrt (rnd (rnd (rnd ((rnd (r - r'))\<^sup>2) + rnd ((rnd (g - g'))\<^sup>2))
                      + rnd ((rnd (b - b'))\<^sup>2))))"
proof -
  obtain er where "conv e = Some er" using assms(1,3) by (cases "conv e") auto
  then obtain r' g' b' where c: "conv e = Some (r', g', b')" by (cases er) auto
  have "\<not> rnd (sqrt (rnd (rnd (rnd ((rnd (r - r'))\<^sup>2) + rnd ((rnd (g - g'))\<^sup>2))
                      + rnd ((rnd (b - b'))\<^sup>2)))) < rnd (1 / 10)"
  proof
    assume "rnd (sqrt (rnd (rnd (rnd ((rnd (r - r'))\<^sup>2) + rnd ((rnd (g - g'))\<^sup>2))
                      + rnd ((rnd (b - b'))\<^sup>2)))) < rnd (1 / 10)"
    then have "too_close rnd conv (r, g, b) es = Inr True"
      unfolding near_too_close[OF assms(1)] using assms(3) c by blast
    then show False using assms(2) by simp
  qed
  then show ?thesis using c by (simp add: not_less)
qed



lemma generate_unique_color_cases:
  assumes "\<forall>e\<in>set existing. conv e \<noteq> None"
    and "generate_unique_color rnd conv rand pos existing = Inr (col, pos')"
  shows "col = fallback_gray \<and> pos' = pos + 100
       \<or> pos < pos' \<and> pos' \<le> pos + 100 \<and> col = hex_color rnd (rand (pos' - 1))
          \<and> too_close rnd conv (rand (pos' - 1)) existing = Inr False"
proof -
  from attempt_loop_spec[OF assms(1), of rnd 100 rand pos] obtain c used where
    r: "attempt_loop rnd conv 100 rand pos existing = Inr (c, pos + used)" and u: "used \<le> 100"
    and d: "0 < used \<and> c = hex_color rnd (rand (pos + used - 1))
          \<and> too_close rnd conv (rand (pos + used - 1)) existing = Inr False
          \<and> (\<forall>a<used - 1. too_close rnd conv (rand (pos + a)) existing = Inr True)
        \<or> used = 100 \<and> c = fallback_gray
          \<and> (\<forall>a<100. too_close rnd conv (rand (pos + a)) existing = Inr True)"
    by blast
  have eq: "col = c" "pos' = pos + used"
    using r assms(2) by (simp_all add: generate_unique_color_def max_attempts_def)
  from d show ?thesis
  proof
    assume a: "0 < used \<and> c = hex_color rnd (rand (pos + used - 1))
          \<and> too_close rnd conv (rand (pos + used - 1)) existing = Inr False
          \<and> (\<forall>a<used - 1. too_close rnd conv (rand (pos + a)) existing = Inr True)"
    then show ?thesis using eq u by auto
  next
    assume b: "used = 100 \<and> c = fallback_gray
          \<and> (\<forall>a<100. too_close rnd conv (rand (pos + a)) existing = Inr True)"
    then show ?thesis using eq by auto
  qed
qed

section \<open>The colour pool\<close>

lemma generate_unique_color_total:
  assumes "\<forall>e\<in>set existing. conv e \<noteq> None"
  shows "\<exists>col pos'. generate_unique_color rnd conv rand pos existing = Inr (col, pos')"
  using attempt_loop_spec[OF assms, of rnd max_attempts rand pos]
  by (auto simp: generate_unique_color_def)

lemma valid_gray: "to_rgb rnd fallback_gray \<noteq> None"
  by (simp add: fallback_gray_def hexpair_def hexval_def)

lemma valid_colors_set: "valid_colors rnd cs \<longleftrightarrow> (\<forall>e\<in>set cs. to_rgb rnd e \<noteq> None)"
  by (simp add: valid_colors_def list_all_iff)

lemma pool_loop_spec:
  assumes "rounding rnd" "\<forall>p. unit_rgb (rand p)" "valid_colors rnd pool"
    and "\<forall>j<length pool. m \<le> j \<longrightarrow> pool ! j = fallback_gray
          \<or> (\<exists>c. unit_rgb c \<and> pool ! j = hex_color rnd c
               \<and> too_close rnd (to_rgb rnd) c (take j pool) = Inr False)"
  shows "\<exists>pool' pos'. pool_loop rnd n rand pos pool = Inr (pool', pos')
     \<and> length pool' = length pool + n \<and> take (length pool) pool' = pool \<and> valid_colors rnd pool'
     \<and> (\<forall>j<length pool'. m \<le> j \<longrightarrow> pool' ! j = fallback_gray
          \<or> (\<exists>c. unit_rgb c \<and> pool' ! j = hex_color rnd c
               \<and> too_close rnd (to_rgb rnd) c (take j pool') = Inr False))"
  using assms(3,4)
proof (induction n arbitrary: pos pool)
  case 0
  then show ?case by simp
next
  case (Suc n)
  have vp: "\<forall>e\<in>set pool. to_rgb rnd e \<noteq> None" using Suc.prems(1) by (simp add: valid_colors_set)
  from generate_unique_color_total[OF vp, of rnd rand pos]
  obtain col pos1 where g: "generate_unique_color rnd (to_rgb rnd) rand pos pool = Inr (col, pos1)"
    by blast
  note cs = generate_unique_color_cases[OF vp g]
  have new: "col = fallback_gray
      \<or> (\<exists>c. unit_rgb c \<and> col = hex_color rnd c \<and> too_close rnd (to_rgb rnd) c pool = Inr False)"
    using cs assms(2) by blast
  have vcol: "to_rgb rnd col \<noteq> None"
  proof (cases "col = fallback_gray")
    case True
    then show ?thesis using valid_gray by simp
  next
    case False
    then obtain c where c: "unit_rgb c" "col = hex_color rnd c" using new by blast
    obtain r g b where "c = (r, g, b)" by (cases c) auto
    then show ?thesis using to_rgb_hex_color[OF assms(1), of r g b] c by simp
  qed
  have v': "valid_colors rnd (pool @ [col])"
    using Suc.prems(1) vcol by (simp add: valid_colors_def)
  have inv': "\<forall>j<length (pool @ [col]). m \<le> j \<longrightarrow> (pool @ [col]) ! j = fallback_gray
          \<or> (\<exists>c. unit_rgb c \<and> (pool @ [col]) ! j = hex_color rnd c
               \<and> too_close rnd (to_rgb rnd) c (take j (pool @ [col])) = Inr False)"
  proof (intro allI impI)
    fix j assume j: "j < length (pool @ [col])" "m \<le> j"
    show "(pool @ [col]) ! j = fallback_gray
          \<or> (\<exists>c. unit_rgb c \<and> (pool @ [col]) ! j = hex_color rnd c
               \<and> too_close rnd (to_rgb rnd) c (take j (pool @ [col])) = Inr False)"
    proof (cases "j < length pool")
      case True
      then have "pool ! j = fallback_gray
          \<or> (\<exists>c. unit_rgb c \<and> pool ! j = hex_color rnd c
               \<and> too_close rnd (to_rgb rnd) c (take j pool) = Inr False)"
        using Suc.prems(2) j(2) by blast
      then show ?thesis using True by (simp add: nth_append)
    next
      case False
      then have "j = length pool" using j(1) by simp
      then show ?thesis using new by (simp add: nth_append)
    qed
  qed
  from Suc.IH[OF v' inv', of pos1] obtain pool' pos' where
    r: "pool_loop rnd n rand pos1 (pool @ [col]) = Inr (pool', pos')"
    and l: "length pool' = length (pool @ [col]) + n"
    and t: "take (length (pool @ [col])) pool' = pool @ [col]"
    and v: "valid_colors rnd pool'"
    and i: "\<forall>j<length pool'. m \<le> j \<longrightarrow> pool' ! j = fallback_gray
          \<or> (\<exists>c. unit_rgb c \<and> pool' ! j = hex_color rnd c
               \<and> too_close rnd (to_rgb rnd) c (take j pool') = Inr False)"
    by blast
  have "take (length pool) pool' = take (length pool) (take (length (pool @ [col])) pool')"
    by (simp add: min_def)
  also have "\<dots> = pool" by (simp only: t) simp
  finally have t': "take (length pool) pool' = pool" .
  show ?case using r l t' v i g by simp
qed

lemma build_color_pool_spec:
  assumes "rounding rnd" "\<forall>p. unit_rgb (rand p)"
  shows "\<exists>pool. build_color_pool rnd rand K = Inr pool \<and> length pool = 2 + nat (K - 2)
     \<and> pool ! 0 = ''#000000'' \<and> pool ! 1 = ''#FFFFFF'' \<and> valid_colors rnd pool
     \<and> (\<forall>j<length pool. 2 \<le> j \<longrightarrow> pool ! j = fallback_gray
          \<or> (\<exists>c. unit_rgb c \<and> pool ! j = hex_color rnd c
               \<and> too_close rnd (to_rgb rnd) c (take j pool) = Inr False))"
proof -
  let ?bw = "[''#000000'', ''#FFFFFF'']"
  have v: "valid_colors rnd ?bw" by (simp add: valid_colors_def hexpair_def hexval_def)
  have i: "\<forall>j<length ?bw. 2 \<le> j \<longrightarrow> ?bw ! j = fallback_gray
          \<or> (\<exists>c. unit_rgb c \<and> ?bw ! j = hex_color rnd c
               \<and> too_close rnd (to_rgb rnd) c (take j ?bw) = Inr False)"
    by simp
  from pool_loop_spec[OF assms v i, of "nat (K - 2)" 0] obtain pool pos' where
    r: "pool_loop rnd (nat (K - 2)) rand 0 ?bw = Inr (pool, pos')"
    and l: "length pool = length ?bw + nat (K - 2)"
    and t: "take (length ?bw) pool = ?bw"
    and vp: "valid_colors rnd pool"
    and ip: "\<forall>j<length pool. 2 \<le> j \<longrightarrow> pool ! j = fallback_gray
          \<or> (\<exists>c. unit_rgb c \<and> pool ! j = hex_color rnd c
               \<and> too_close rnd (to_rgb rnd) c (take j pool) = Inr False)"
    by blast
  have "pool ! 0 = take (length ?bw) pool ! 0" "pool ! 1 = take (length ?bw) pool ! 1"
    by simp_all
  then have p: "pool ! 0 = ''#000000''" "pool ! 1 = ''#FFFFFF''" by (simp_all only: t) simp_all
  show ?thesis using r l p vp ip by (simp add: build_color_pool_def)
qed

text \<open>What the acceptance of a candidate \<open>(r, g, b)\<close> against the entries before position
  \<open>j\<close> says, written out.\<close>

lemma pool_entry:
  assumes "rounding rnd" "valid_colors rnd pool" "j \<le> length pool" "unit_rgb (r, g, b)"
    and "too_close rnd (to_rgb rnd) (r, g, b) (take j pool) = Inr False"
  shows "\<bar>r - real_of_int (py_int (rnd (r * 255))) / 255\<bar> \<le> 1 / 255"
    and "\<bar>g - real_of_int (py_int (rnd (g * 255))) / 255\<bar> \<le> 1 / 255"
    and "\<bar>b - real_of_int (py_int (rnd (b * 255))) / 255\<bar> \<le> 1 / 255"
    and "\<forall>i<j. \<exists>r' g' b'. to_rgb rnd (pool ! i) = Some (r', g', b')
           \<and> rnd (1 / 10) \<le> rnd (sqrt (rnd (rnd (rnd ((rnd (r - r'))\<^sup>2) + rnd ((rnd (g - g'))\<^sup>2))
                                   + rnd ((rnd (b - b'))\<^sup>2))))"
proof -
  have u: "0 \<le> r" "r < 1" "0 \<le> g" "g < 1" "0 \<le> b" "b < 1"
    using assms(4) by (auto simp: unit_rgb_def)
  show "\<bar>r - real_of_int (py_int (rnd (r * 255))) / 255\<bar> \<le> 1 / 255"
    by (rule rounding_byte(3)[OF assms(1) u(1,2)])
  show "\<bar>g - real_of_int (py_int (rnd (g * 255))) / 255\<bar> \<le> 1 / 255"
    by (rule rounding_byte(3)[OF assms(1) u(3,4)])
  show "\<bar>b - real_of_int (py_int (rnd (b * 255))) / 255\<bar> \<le> 1 / 255"
    by (rule rounding_byte(3)[OF assms(1) u(5,6)])
  have v: "\<forall>e\<in>set (take j pool). to_rgb rnd e \<noteq> None"
    using assms(2) by (auto simp: valid_colors_set dest: in_set_takeD)
  show "\<forall>i<j. \<exists>r' g' b'. to_rgb rnd (pool ! i) = Some (r', g', b')
           \<and> rnd (1 / 10) \<le> rnd (sqrt (rnd (rnd (rnd ((rnd (r - r'))\<^sup>2) + rnd ((rnd (g - g'))\<^sup>2))
                                   + rnd ((rnd (b - b'))\<^sup>2))))"
  proof (intro allI impI)
    fix i assume i: "i < j"
    have "take j pool ! i \<in> set (take j pool)" using i assms(3) by (intro nth_mem) simp
    then have m: "pool ! i \<in> set (take j pool)" using i by simp
    show "\<exists>r' g' b'. to_rgb rnd (pool ! i) = Some (r', g', b')
           \<and> rnd (1 / 10) \<le> rnd (sqrt (rnd (rnd (rnd ((rnd (r - r'))\<^sup>2) + rnd ((rnd (g - g'))\<^sup>2))
                                   + rnd ((rnd (b - b'))\<^sup>2))))"
      by (rule far_too_close[OF v assms(5) m])
  qed
qed

text \<open>
  C6, as the code has it. For every effective \<open>K \<ge> 2\<close>, all draws in \<open>[0, 1)\<close> and every
  rounding the pool is a list of exactly \<open>K\<close> colours, black first and white second.
  Every later entry is the gray \<open>#808080\<close> or the hex string of a candidate \<open>(r, g, b)\<close>,
  each channel stored as the byte \<open>int(channel * 255)\<close>, at most \<open>1 / 255\<close> away from
  the channel. The distance of at least \<open>0.1\<close> to all earlier entries is a property of
  that candidate, measured as line 60 computes it, and not of the stored entry. Two
  stored entries, read as the colours their bytes stand for (\<open>to_rgb\<close> without
  rounding), are farther apart than \<open>0.1 - sqrt 3 / 255\<close> in Euclidean distance, unless
  the later one is \<open>#808080\<close>.
\<close>

theorem C6_color_pool:
  assumes "2 \<le> K" "rounding rnd" "accurate rnd" "\<forall>p. unit_rgb (rand p)"
  shows "\<exists>pool. build_color_pool rnd rand K = Inr pool \<and> length pool = nat K
     \<and> pool ! 0 = ''#000000'' \<and> pool ! 1 = ''#FFFFFF''
     \<and> (\<forall>j<nat K. 2 \<le> j \<longrightarrow> pool ! j = ''#808080''
          \<or> (\<exists>r g b nr ng nb. unit_rgb (r, g, b)
               \<and> nr = py_int (rnd (r * 255)) \<and> ng = py_int (rnd (g * 255))
               \<and> nb = py_int (rnd (b * 255))
               \<and> pool ! j = CHR ''#'' # fmt02x nr @ fmt02x ng @ fmt02x nb
               \<and> \<bar>r - real_of_int nr / 255\<bar> \<le> 1 / 255 \<and> \<bar>g - real_of_int ng / 255\<bar> \<le> 1 / 255
               \<and> \<bar>b - real_of_int nb / 255\<bar> \<le> 1 / 255
               \<and> (\<forall>i<j. \<exists>r' g' b'. to_rgb rnd (pool ! i) = Some (r', g', b')
                     \<and> rnd (1 / 10)
                         \<le> rnd (sqrt (rnd (rnd (rnd ((rnd (r - r'))\<^sup>2) + rnd ((rnd (g - g'))\<^sup>2))
                                       + rnd ((rnd (b - b'))\<^sup>2)))))))
     \<and> (\<forall>i j. i < j \<and> j < nat K \<and> pool ! j \<noteq> ''#808080'' \<longrightarrow>
          (\<exists>r1 g1 b1 r2 g2 b2. to_rgb (\<lambda>x. x) (pool ! i) = Some (r1, g1, b1)
             \<and> to_rgb (\<lambda>x. x) (pool ! j) = Some (r2, g2, b2)
             \<and> 1 / 10 - sqrt 3 / 255 < sqrt ((r1 - r2)\<^sup>2 + (g1 - g2)\<^sup>2 + (b1 - b2)\<^sup>2)))"
proof -
  from build_color_pool_spec[OF assms(2,4), of K] obtain pool where
    r: "build_color_pool rnd rand K = Inr pool" and l: "length pool = 2 + nat (K - 2)"
    and p: "pool ! 0 = ''#000000''" "pool ! 1 = ''#FFFFFF''"
    and vp: "valid_colors rnd pool"
    and ip: "\<forall>j<length pool. 2 \<le> j \<longrightarrow> pool ! j = fallback_gray
          \<or> (\<exists>c. unit_rgb c \<and> pool ! j = hex_color rnd c
               \<and> too_close rnd (to_rgb rnd) c (take j pool) = Inr False)"
    by blast
  have l': "length pool = nat K" using l assms(1) by simp
  have e: "pool ! j = ''#808080''
          \<or> (\<exists>r g b nr ng nb. unit_rgb (r, g, b)
               \<and> nr = py_int (rnd (r * 255)) \<and> ng = py_int (rnd (g * 255))
               \<and> nb = py_int (rnd (b * 255))
               \<and> pool ! j = CHR ''#'' # fmt02x nr @ fmt02x ng @ fmt02x nb
               \<and> \<bar>r - real_of_int nr / 255\<bar> \<le> 1 / 255 \<and> \<bar>g - real_of_int ng / 255\<bar> \<le> 1 / 255
               \<and> \<bar>b - real_of_int nb / 255\<bar> \<le> 1 / 255
               \<and> (\<forall>i<j. \<exists>r' g' b'. to_rgb rnd (pool ! i) = Some (r', g', b')
                     \<and> rnd (1 / 10)
                         \<le> rnd (sqrt (rnd (rnd (rnd ((rnd (r - r'))\<^sup>2) + rnd ((rnd (g - g'))\<^sup>2))
                                       + rnd ((rnd (b - b'))\<^sup>2))))))"
    if j: "j < nat K" "2 \<le> j" for j
  proof (cases "pool ! j = ''#808080''")
    case True
    then show ?thesis by simp
  next
    case False
    then obtain c where c: "unit_rgb c" "pool ! j = hex_color rnd c"
      "too_close rnd (to_rgb rnd) c (take j pool) = Inr False"
      using ip j l' by (auto simp: fallback_gray_def)
    obtain r g b where cc: "c = (r, g, b)" by (cases c) auto
    have jl: "j \<le> length pool" using j(1) l' by simp
    note pe = pool_entry[OF assms(2) vp jl c(1)[unfolded cc] c(3)[unfolded cc]]
    have h: "pool ! j = CHR ''#'' # fmt02x (py_int (rnd (r * 255))) @ fmt02x (py_int (rnd (g * 255)))
               @ fmt02x (py_int (rnd (b * 255)))"
      using c(2) by (simp add: cc hex_color_def)
    show ?thesis
      using c(1)[unfolded cc] h pe by blast
  qed
  have far: "\<exists>r1 g1 b1 r2 g2 b2. to_rgb (\<lambda>x. x) (pool ! i) = Some (r1, g1, b1)
             \<and> to_rgb (\<lambda>x. x) (pool ! j) = Some (r2, g2, b2)
             \<and> 1 / 10 - sqrt 3 / 255 < sqrt ((r1 - r2)\<^sup>2 + (g1 - g2)\<^sup>2 + (b1 - b2)\<^sup>2)"
    if h: "i < j" "j < nat K" "pool ! j \<noteq> ''#808080''" for i j
  proof (cases "2 \<le> j")
    case False
    then have ij: "i = 0" "j = 1" using h(1) by auto
    have "(1 / 10 :: real) - sqrt 3 / 255 < sqrt 3" using sqrt3_bounds by linarith
    then have "1 / 10 - sqrt 3 / 255 < sqrt ((0 - 1)\<^sup>2 + (0 - 1)\<^sup>2 + (0 - 1 :: real)\<^sup>2)"
      by simp
    then show ?thesis
      unfolding ij p using to_rgb_black[of "\<lambda>x. x"] to_rgb_white[of "\<lambda>x. x"] by blast
  next
    case True
    from e[OF h(2) True] h(3) obtain r g b where un: "unit_rgb (r, g, b)"
      and st: "pool ! j = CHR ''#'' # fmt02x (py_int (rnd (r * 255))) @ fmt02x (py_int (rnd (g * 255)))
                 @ fmt02x (py_int (rnd (b * 255)))"
      and fr: "\<forall>i<j. \<exists>r' g' b'. to_rgb rnd (pool ! i) = Some (r', g', b')
                     \<and> rnd (1 / 10)
                         \<le> rnd (sqrt (rnd (rnd (rnd ((rnd (r - r'))\<^sup>2) + rnd ((rnd (g - g'))\<^sup>2))
                                       + rnd ((rnd (b - b'))\<^sup>2))))"
      by blast
    have u: "0 \<le> r" "r < 1" "0 \<le> g" "g < 1" "0 \<le> b" "b < 1"
      using un by (auto simp: unit_rgb_def)
    note R = rounding_byte(1,2)[OF assms(2) u(1,2)] and G = rounding_byte(1,2)[OF assms(2) u(3,4)]
      and B = rounding_byte(1,2)[OF assms(2) u(5,6)]
    have sj: "to_rgb (\<lambda>x. x) (pool ! j)
        = Some (real_of_int (py_int (rnd (r * 255))) / 255, real_of_int (py_int (rnd (g * 255))) / 255,
                real_of_int (py_int (rnd (b * 255))) / 255)"
      unfolding st by (rule to_rgb_bytes[OF R(1) R(2) G(1) G(2) B(1) B(2)])
    have "i < length pool" using h(1,2) l' by simp
    then have "to_rgb rnd (pool ! i) \<noteq> None" using vp by (simp add: valid_colors_set)
    from to_rgb_valid[OF this] obtain m1 m2 m3 where m: "m1 \<le> 255" "m2 \<le> 255" "m3 \<le> 255"
      and rd: "\<And>rnd'. to_rgb rnd' (pool ! i)
          = Some (rnd' (real m1 / 255), rnd' (real m2 / 255), rnd' (real m3 / 255))"
      by blast
    have si: "to_rgb (\<lambda>x. x) (pool ! i) = Some (real m1 / 255, real m2 / 255, real m3 / 255)"
      using rd[of "\<lambda>x. x"] .
    have "rnd (1 / 10)
        \<le> rnd (sqrt (rnd (rnd (rnd ((rnd (r - rnd (real m1 / 255)))\<^sup>2)
                             + rnd ((rnd (g - rnd (real m2 / 255)))\<^sup>2))
                        + rnd ((rnd (b - rnd (real m3 / 255)))\<^sup>2))))"
      using fr h(1) rd[of rnd] by fastforce
    from stored_far[OF assms(2,3) un m this]
    have "1 / 10 - sqrt 3 / 255
       < sqrt ((real m1 / 255 - real_of_int (py_int (rnd (r * 255))) / 255)\<^sup>2
             + (real m2 / 255 - real_of_int (py_int (rnd (g * 255))) / 255)\<^sup>2
             + (real m3 / 255 - real_of_int (py_int (rnd (b * 255))) / 255)\<^sup>2)"
      by (simp only: power2_commute[of "real m1 / 255"] power2_commute[of "real m2 / 255"]
          power2_commute[of "real m3 / 255"])
    then show ?thesis using si sj by blast
  qed
  have far': "\<forall>i j. i < j \<and> j < nat K \<and> pool ! j \<noteq> ''#808080'' \<longrightarrow>
          (\<exists>r1 g1 b1 r2 g2 b2. to_rgb (\<lambda>x. x) (pool ! i) = Some (r1, g1, b1)
             \<and> to_rgb (\<lambda>x. x) (pool ! j) = Some (r2, g2, b2)
             \<and> 1 / 10 - sqrt 3 / 255 < sqrt ((r1 - r2)\<^sup>2 + (g1 - g2)\<^sup>2 + (b1 - b2)\<^sup>2))"
    using far by blast
  show ?thesis using r l' p e far' by blast
qed

lemma accurate_exact: "accurate (\<lambda>x. x)"
  by (simp add: accurate_def)

lemma unit_dark_red: "unit_rgb (101 / 1000, 0, 0)"
  by (simp add: unit_rgb_def)

lemma rounding_exact: "rounding (\<lambda>x. x)"
  by (simp add: rounding_def)

lemma pool_dark_red:
  "build_color_pool (\<lambda>x. x) (\<lambda>p. (101 / 1000, 0, 0)) 3 = Inr [''#000000'', ''#FFFFFF'', ''#190000'']"
proof -
  have t: "too_close (\<lambda>x. x) (to_rgb (\<lambda>x. x)) (101 / 1000, 0, 0) [''#000000'', ''#FFFFFF'']
      = Inr False"
    by (simp add: hexpair_def hexval_def color_dist_less_threshold power2_eq_square)
  have g: "generate_unique_color (\<lambda>x. x) (to_rgb (\<lambda>x. x)) (\<lambda>p. (101 / 1000, 0, 0)) 0
        [''#000000'', ''#FFFFFF''] = Inr (''#190000'', 1)"
    using attempt_accept[of "\<lambda>x. x" "to_rgb (\<lambda>x. x)" "\<lambda>p. (101 / 1000, 0, 0)" 0, OF t]
      hex_color_dark_red by simp
  have "pool_loop (\<lambda>x. x) (Suc 0) (\<lambda>p. (101 / 1000, 0, 0)) 0 [''#000000'', ''#FFFFFF'']
      = Inr ([''#000000'', ''#FFFFFF'', ''#190000''], 1)"
    by (simp add: g)
  then show ?thesis by (simp add: build_color_pool_def)
qed

text \<open>Three colours, every candidate \<open>(0.101, 0, 0)\<close>, exact arithmetic: the pool is
  black, white and \<open>#190000\<close>.\<close>

theorem C6_color_pool_witness:
  "(2::int) \<le> 3 \<and> rounding (\<lambda>x. x) \<and> accurate (\<lambda>x. x) \<and> unit_rgb (101 / 1000, 0, 0)
   \<and> build_color_pool (\<lambda>x. x) (\<lambda>p. (101 / 1000, 0, 0)) 3 = Inr [''#000000'', ''#FFFFFF'', ''#190000'']
   \<and> (\<exists>pool. build_color_pool (\<lambda>x. x) (\<lambda>p. (101 / 1000, 0, 0)) 3 = Inr pool
         \<and> length pool = 3 \<and> pool ! 0 = ''#000000'' \<and> pool ! 1 = ''#FFFFFF'')"
proof -
  have u: "\<forall>p. unit_rgb ((\<lambda>p. (101 / 1000, 0, 0)) p)" using unit_dark_red by simp
  from C6_color_pool[of 3 "\<lambda>x. x" "\<lambda>p. (101 / 1000, 0, 0)", OF _ rounding_exact accurate_exact u]
  have "\<exists>pool. build_color_pool (\<lambda>x. x) (\<lambda>p. (101 / 1000, 0, 0)) 3 = Inr pool
         \<and> length pool = 3 \<and> pool ! 0 = ''#000000'' \<and> pool ! 1 = ''#FFFFFF''"
    by auto
  then show ?thesis using unit_dark_red pool_dark_red rounding_exact accurate_exact by simp
qed

text \<open>The claim as stated (stored entries at distance at least \<open>0.1\<close>) fails: the candidate
  \<open>(0.101, 0, 0)\<close> passes the check against black and white and is stored as \<open>#190000\<close>,
  the colour \<open>(25 / 255, 0, 0)\<close>, at distance \<open>25 / 255 < 0.1\<close> from black; neither
  entry is the fallback gray.\<close>

theorem C6_quantised_counterexample:
  "build_color_pool (\<lambda>x. x) (\<lambda>p. (101 / 1000, 0, 0)) 3 = Inr [''#000000'', ''#FFFFFF'', ''#190000'']
   \<and> ''#190000'' \<noteq> ''#808080'' \<and> ''#000000'' \<noteq> ''#808080''
   \<and> to_rgb (\<lambda>x. x) ''#000000'' = Some (0, 0, 0)
   \<and> to_rgb (\<lambda>x. x) ''#190000'' = Some (25 / 255, 0, 0)
   \<and> sqrt ((0 - 25 / 255)\<^sup>2 + (0 - 0)\<^sup>2 + (0 - 0)\<^sup>2) < (1 / 10 :: real)"
proof -
  have "sqrt ((0 - 25 / 255)\<^sup>2 + (0 - 0)\<^sup>2 + (0 - 0)\<^sup>2) = \<bar>25 / 255 :: real\<bar>"
    by (simp only: diff_zero power2_minus zero_power2 add_0_right real_sqrt_abs diff_0)
  then have "sqrt ((0 - 25 / 255)\<^sup>2 + (0 - 0)\<^sup>2 + (0 - 0)\<^sup>2) < (1 / 10 :: real)" by simp
  then show ?thesis using pool_dark_red to_rgb_black[of "\<lambda>x. x"] to_rgb_dark_red[of "\<lambda>x. x"]
    by simp
qed



section \<open>The whole generation cycle\<close>

lemma balanced_in_range:
  assumes "\<forall>i. count_list a i = (if i < k then b + (if i \<in> E then 1 else 0) else 0)" "s < length a"
  shows "a ! s < k"
proof (rule ccontr)
  assume "\<not> a ! s < k"
  then have "count_list a (a ! s) = 0" using assms(1) by simp
  then have "a ! s \<notin> set a" by (simp add: count_list_0_iff)
  then show False using assms(2) by simp
qed

lemma py_take_nth:
  assumes "0 \<le> K" "i < nat K" "nat K \<le> length xs"
  shows "py_take K xs ! i = xs ! i" "i < length (py_take K xs)"
  using assms by (simp_all add: py_take_def)

text \<open>Without a positive remainder the result of \<open>random.sample\<close> is not used.\<close>

lemma distribute_no_extra:
  assumes "\<not> 0 < N mod K"
  shows "distribute pick N K extra perm = distribute pick N K [] perm"
  using assms by (simp add: distribute_def Let_def)

lemma generate_voronoi_at_spec:
  assumes "1 \<le> N" "1 \<le> K" "rounding rnd" "draws_ok d N K"
  shows "\<exists>out a E. generate_voronoi_at rnd G d N K = Inr out
     \<and> color_assignment N (min K N) (extra_colors d) (shuffle_perm d) = Inr a
     \<and> build_color_pool rnd (color_draws d) (min K N) = Inr (color_pool out)
     \<and> num_colors out = min K N
     \<and> length (color_pool out) = 2 + nat (min K N - 2)
     \<and> points out = map (\<lambda>r. (rnd (fst (site_draws d r) * 10), rnd (snd (site_draws d r) * 10)))
                       [0..<nat N]
     \<and> colors out = map (\<lambda>i. color_pool out ! i) a
     \<and> length a = nat N
     \<and> (\<forall>i. count_list a i = (if i < nat (min K N)
            then nat (N div min K N) + (if i \<in> E then 1 else 0) else 0))
     \<and> card {i. i < nat (min K N) \<and> count_list a i = nat (N div min K N) + 1} = nat (N mod min K N)
     \<and> shape G (index_grid out) \<and> shape G (color_grid out)
     \<and> (\<forall>i<G. \<forall>j<G. classify_cell rnd (points out) (colors out)
              (color_to_index (color_pool out) (min K N)) (grid_points rnd G ! (i * G + j))
            = Inr (index_grid out ! i ! j, color_grid out ! i ! j))
     \<and> boundary_lines out = boundary_scan G (index_grid out)"
proof -
  let ?K = "min K N"
  let ?pts = "map (\<lambda>r. (rnd (fst (site_draws d r) * 10), rnd (snd (site_draws d r) * 10))) [0..<nat N]"
  have K1: "1 \<le> ?K" using assms(1,2) by simp
  have u: "\<forall>p. unit_rgb (color_draws d p)"
    and so: "0 < N mod ?K \<Longrightarrow> sample_ok N ?K (extra_colors d)"
    and pm: "perm_ok (nat N) (shuffle_perm d (nat N))"
    using assms(4) K1 by (auto simp: draws_ok_def)
  define ex where "ex = (if 0 < N mod ?K then extra_colors d else [])"
  have s: "sample_ok N ?K ex"
  proof (cases "0 < N mod ?K")
    case True
    then show ?thesis using so by (simp add: ex_def)
  next
    case False
    moreover have "0 \<le> N mod ?K" using K1 by simp
    ultimately have "N mod ?K = 0" by simp
    then show ?thesis by (simp add: ex_def sample_ok_def)
  qed
  have de: "distribute pick N ?K (extra_colors d) (shuffle_perm d)
      = distribute pick N ?K ex (shuffle_perm d)" for pick :: "nat \<Rightarrow> 'b"
  proof (cases "0 < N mod ?K")
    case True
    then show ?thesis by (simp add: ex_def)
  next
    case False
    then have "ex = []" by (simp add: ex_def)
    then show ?thesis using distribute_no_extra[OF False] by simp
  qed
  from build_color_pool_spec[OF assms(3) u, of ?K] obtain pool where
    bp: "build_color_pool rnd (color_draws d) ?K = Inr pool" and lp: "length pool = 2 + nat (?K - 2)"
    by blast
  from color_assignment_balanced[of ?K N ex "shuffle_perm d" pool, OF _ _ s pm]
  obtain a where ca0: "color_assignment N ?K ex (shuffle_perm d) = Inr a"
    and ac0: "assign_colors pool N ?K ex (shuffle_perm d) = Inr (map (\<lambda>i. pool ! i) a)"
    and la: "length a = nat N"
    and cnt: "\<forall>i. count_list a i = (if i < nat ?K
            then nat (N div ?K) + (if i \<in> set ex then 1 else 0) else 0)"
    and cd: "card {i. i < nat ?K \<and> count_list a i = nat (N div ?K) + 1} = nat (N mod ?K)"
    using K1 assms(1) by auto
  have ca: "color_assignment N ?K (extra_colors d) (shuffle_perm d) = Inr a"
    using ca0 de[of "\<lambda>i. i"] by (simp add: color_assignment_def)
  have ac: "assign_colors pool N ?K (extra_colors d) (shuffle_perm d) = Inr (map (\<lambda>i. pool ! i) a)"
    using ac0 de[of "\<lambda>i. pool ! i"] by (simp add: assign_colors_def)
  let ?cols = "map (\<lambda>i. pool ! i) a"
  let ?c2i = "color_to_index pool ?K"
  have Kl: "nat ?K \<le> length pool" using lp by simp
  have cell: "\<exists>k ci. classify_cell rnd ?pts ?cols ?c2i gp = Inr (k, ci)" for gp
  proof -
    have "sq_dists rnd ?pts gp \<noteq> []" using assms(1) by (simp add: sq_dists_def)
    from np_argmin_spec[OF this] obtain k where
      k: "np_argmin (sq_dists rnd ?pts gp) = Inr k" "k < length (sq_dists rnd ?pts gp)" by blast
    have kN: "k < nat N" using k(2) by (simp add: sq_dists_def)
    have ak: "a ! k < nat ?K" using balanced_in_range[OF cnt] kN la by simp
    have "?cols ! k = py_take ?K pool ! (a ! k)"
      using py_take_nth(1)[OF _ ak Kl] K1 kN la by simp
    moreover have "a ! k < length (py_take ?K pool)"
      using py_take_nth(2)[OF _ ak Kl] K1 by simp
    ultimately have "?cols ! k \<in> set (py_take ?K pool)" by (metis nth_mem)
    from color_to_index_mem[OF this] obtain ci where "?c2i (?cols ! k) = Some ci" by blast
    then have "classify_cell rnd ?pts ?cols ?c2i gp = Inr (k, ci)"
      using k(1) kN la by (simp add: classify_cell_def)
    then show ?thesis by blast
  qed
  then have "\<forall>gp \<in> set (grid_points rnd G). \<exists>k ci. classify_cell rnd ?pts ?cols ?c2i gp = Inr (k, ci)"
    by blast
  from classify_grid_cells[OF this] obtain ig cg where
    cl: "classify_grid rnd G ?pts ?cols ?c2i = Inr (ig, cg)" and sh: "shape G ig" "shape G cg"
    and cv: "\<forall>r<G. \<forall>c<G. classify_cell rnd ?pts ?cols ?c2i (grid_points rnd G ! (r * G + c))
        = Inr (ig ! r ! c, cg ! r ! c)"
    by blast
  let ?out = "\<lparr>points = ?pts, color_pool = pool, num_colors = ?K, colors = ?cols,
      index_grid = ig, color_grid = cg, boundary_lines = boundary_scan G ig\<rparr>"
  have "generate_voronoi_at rnd G d N K = Inr ?out"
    using assms(1) bp ac cl by (simp add: generate_voronoi_at_def Let_def)
  then show ?thesis
    using ca bp lp la cnt cd sh cv by (intro exI[of _ ?out] exI[of _ a] exI[of _ "set ex"]) simp
qed

lemma draws_ok_fixed:
  assumes "unit_rgb c" "min k n \<noteq> 0 \<and> 0 < n mod min k n \<longrightarrow> sample_ok n (min k n) extra"
  shows "draws_ok (fixed_draws sites c extra) n k"
  using assms by (simp add: draws_ok_def fixed_draws_def perm_ok_def list_all_iff)

text \<open>
  C1, as the code has it. The program keeps the colour string of every site, not a pool
  index; \<open>color_grid\<close> is filled through the dictionary from colour strings to pool indices.
  For every \<open>N \<ge> 1\<close>, \<open>K \<ge> 1\<close> (so for every valid \<open>N\<close> and \<open>K\<close>), every grid resolution,
  every rounding and every cell \<open>(i, j)\<close>, the generation cycle returns, and the pool
  colour at \<open>color_grid[i][j]\<close> is the colour of the site \<open>index_grid[i][j]\<close>, which is the
  pool entry at the index assigned to that site. \<open>color_grid[i][j]\<close> is that assigned index
  itself whenever the colours of the pool in use are pairwise different strings.
\<close>

theorem C1_color_grid_consistent:
  assumes "1 \<le> N" "1 \<le> K" "rounding rnd" "draws_ok d N K" "i < G" "j < G"
  shows "\<exists>out a. generate_voronoi_at rnd G d N K = Inr out
     \<and> color_assignment N (min K N) (extra_colors d) (shuffle_perm d) = Inr a
     \<and> index_grid out ! i ! j < nat N
     \<and> color_grid out ! i ! j < nat (min K N)
     \<and> colors out ! (index_grid out ! i ! j) = color_pool out ! (a ! (index_grid out ! i ! j))
     \<and> color_pool out ! (color_grid out ! i ! j) = colors out ! (index_grid out ! i ! j)
     \<and> (distinct (py_take (min K N) (color_pool out))
          \<longrightarrow> color_grid out ! i ! j = a ! (index_grid out ! i ! j))"
proof -
  let ?K = "min K N"
  have K1: "0 \<le> ?K" using assms(1,2) by simp
  from generate_voronoi_at_spec[OF assms(1,2,3,4), of G] obtain out a E where
    g: "generate_voronoi_at rnd G d N K = Inr out"
    and ca: "color_assignment N ?K (extra_colors d) (shuffle_perm d) = Inr a"
    and lp: "length (color_pool out) = 2 + nat (?K - 2)"
    and co: "colors out = map (\<lambda>i. color_pool out ! i) a"
    and la: "length a = nat N"
    and cnt: "\<forall>i. count_list a i = (if i < nat ?K
            then nat (N div ?K) + (if i \<in> E then 1 else 0) else 0)"
    and cv: "\<forall>i<G. \<forall>j<G. classify_cell rnd (points out) (colors out)
              (color_to_index (color_pool out) ?K) (grid_points rnd G ! (i * G + j))
            = Inr (index_grid out ! i ! j, color_grid out ! i ! j)"
    by blast
  let ?s = "index_grid out ! i ! j" and ?c = "color_grid out ! i ! j"
  have cell: "classify_cell rnd (points out) (colors out) (color_to_index (color_pool out) ?K)
      (grid_points rnd G ! (i * G + j)) = Inr (?s, ?c)"
    using cv assms(5,6) by blast
  note ci = classify_cell_Inr[OF cell]
  have Kl: "nat ?K \<le> length (color_pool out)" using lp by simp
  have sN: "?s < nat N" using ci(2) co la by simp
  have as: "a ! ?s < nat ?K" using balanced_in_range[OF cnt] sN la by simp
  have cs: "colors out ! ?s = color_pool out ! (a ! ?s)" using co sN la by simp
  note look = color_to_index_Some[OF ci(3)]
  have cK: "?c < nat ?K" using look K1 Kl by (simp add: py_take_def)
  have pc: "color_pool out ! ?c = colors out ! ?s"
    using look py_take_nth(1)[OF K1 cK Kl] by simp
  have dist: "?c = a ! ?s" if d: "distinct (py_take ?K (color_pool out))"
  proof -
    have "color_to_index (color_pool out) ?K (py_take ?K (color_pool out) ! (a ! ?s)) = Some (a ! ?s)"
      using color_to_index_distinct[OF d py_take_nth(2)[OF K1 as Kl]] .
    then have "color_to_index (color_pool out) ?K (colors out ! ?s) = Some (a ! ?s)"
      using py_take_nth(1)[OF K1 as Kl] cs by simp
    then show ?thesis using ci(3) by simp
  qed
  show ?thesis
    using g ca sN cK cs pc dist by (intro exI[of _ out] exI[of _ a]) simp
qed

lemma generate_voronoi_at_eval:
  assumes "0 \<le> n"
    and "build_color_pool rnd (color_draws d) (min k n) = Inr pool"
    and "assign_colors pool n (min k n) (extra_colors d) (shuffle_perm d) = Inr cols"
    and "classify_grid rnd G
           (map (\<lambda>r. (rnd (fst (site_draws d r) * 10), rnd (snd (site_draws d r) * 10))) [0..<nat n])
           cols (color_to_index pool (min k n)) = Inr (ig, cg)"
  shows "generate_voronoi_at rnd G d n k =
     Inr \<lparr>points = map (\<lambda>r. (rnd (fst (site_draws d r) * 10), rnd (snd (site_draws d r) * 10))) [0..<nat n],
          color_pool = pool, num_colors = min k n, colors = cols,
          index_grid = ig, color_grid = cg, boundary_lines = boundary_scan G ig\<rparr>"
  using assms by (simp add: generate_voronoi_at_def Let_def)

lemma pool_two: "build_color_pool rnd rand 2 = Inr [''#000000'', ''#FFFFFF'']"
  by (simp add: build_color_pool_def)

lemma two_sites_run:
  "generate_voronoi_at (\<lambda>x. x) 2
       (fixed_draws (\<lambda>r. if r = 0 then (0, 0) else (9 / 10, 9 / 10)) (1 / 2, 1 / 2, 1 / 2) []) 2 2
     = Inr \<lparr>points = [(0, 0), (9, 9)], color_pool = [''#000000'', ''#FFFFFF''], num_colors = 2,
            colors = [''#000000'', ''#FFFFFF''], index_grid = [[0, 1], [1, 1]],
            color_grid = [[0, 1], [1, 1]], boundary_lines = [((0, 0), (5, 0)), ((0, 0), (0, 5))]\<rparr>"
proof -
  let ?d = "fixed_draws (\<lambda>r. if r = 0 then (0, 0) else (9 / 10, 9 / 10)) (1 / 2, 1 / 2, 1 / 2) []"
  have pts: "map (\<lambda>r. (fst (site_draws ?d r) * 10, snd (site_draws ?d r) * 10)) [0..<nat 2]
      = [(0, 0), (9, 9)]"
    by code_simp
  have bp: "build_color_pool (\<lambda>x. x) (color_draws ?d) (min 2 2) = Inr [''#000000'', ''#FFFFFF'']"
    by (simp add: pool_two)
  have ac: "assign_colors [''#000000'', ''#FFFFFF''] 2 (min 2 2) (extra_colors ?d) (shuffle_perm ?d)
      = Inr [''#000000'', ''#FFFFFF'']"
    by code_simp
  have cl: "classify_grid (\<lambda>x. x) 2 [(0, 0), (9, 9)] [''#000000'', ''#FFFFFF'']
      (color_to_index [''#000000'', ''#FFFFFF''] (min 2 2)) = Inr ([[0, 1], [1, 1]], [[0, 1], [1, 1]])"
    by code_simp
  have bs: "boundary_scan 2 [[0, 1], [1, 1]] = [((0, 0), (5, 0)), ((0, 0), (0, 5))]"
    by code_simp
  have e: "generate_voronoi_at (\<lambda>x. x) 2 ?d 2 2 =
     Inr \<lparr>points = map (\<lambda>r. (fst (site_draws ?d r) * 10, snd (site_draws ?d r) * 10)) [0..<nat 2],
          color_pool = [''#000000'', ''#FFFFFF''], num_colors = min 2 2,
          colors = [''#000000'', ''#FFFFFF''],
          index_grid = [[0, 1], [1, 1]], color_grid = [[0, 1], [1, 1]],
          boundary_lines = boundary_scan 2 [[0, 1], [1, 1]]\<rparr>"
    by (rule generate_voronoi_at_eval[where rnd = "\<lambda>x. x", OF _ bp ac cl[folded pts]]) simp
  show ?thesis unfolding e pts bs by simp
qed

theorem C1_color_grid_consistent_witness:
  "rounding (\<lambda>x. x)
   \<and> draws_ok (fixed_draws (\<lambda>r. if r = 0 then (0, 0) else (9 / 10, 9 / 10)) (1 / 2, 1 / 2, 1 / 2) []) 2 2
   \<and> (\<exists>out. generate_voronoi_at (\<lambda>x. x) 2
          (fixed_draws (\<lambda>r. if r = 0 then (0, 0) else (9 / 10, 9 / 10)) (1 / 2, 1 / 2, 1 / 2) []) 2 2 = Inr out
        \<and> index_grid out = [[0, 1], [1, 1]] \<and> color_grid out = [[0, 1], [1, 1]]
        \<and> color_pool out ! (color_grid out ! 1 ! 1) = colors out ! (index_grid out ! 1 ! 1))"
proof -
  let ?d = "fixed_draws (\<lambda>r. if r = 0 then (0, 0) else (9 / 10, 9 / 10)) (1 / 2, 1 / 2, 1 / 2) []"
  have ok: "draws_ok ?d 2 2"
    by (rule draws_ok_fixed) (simp_all add: unit_rgb_def sample_ok_def)
  from C1_color_grid_consistent[OF _ _ rounding_exact ok, of 1 2 1]
  obtain out where o: "generate_voronoi_at (\<lambda>x. x) 2 ?d 2 2 = Inr out"
    and c: "color_pool out ! (color_grid out ! 1 ! 1) = colors out ! (index_grid out ! 1 ! 1)"
    by auto
  have x: "\<lparr>points = [(0, 0), (9, 9)], color_pool = [''#000000'', ''#FFFFFF''], num_colors = 2,
            colors = [''#000000'', ''#FFFFFF''], index_grid = [[0, 1], [1, 1]],
            color_grid = [[0, 1], [1, 1]], boundary_lines = [((0, 0), (5, 0)), ((0, 0), (0, 5))]\<rparr> = out"
    using o by (simp add: two_sites_run)
  have "index_grid out = [[0, 1], [1, 1]] \<and> color_grid out = [[0, 1], [1, 1]]"
    unfolding x[symmetric] by simp
  with ok o c rounding_exact show ?thesis by blast
qed

lemma near_black:
  "too_close (\<lambda>x. x) (to_rgb (\<lambda>x. x)) (1 / 100, 1 / 100, 1 / 100) (''#000000'' # es) = Inr True"
  by (simp add: hexpair_def hexval_def color_dist_less_threshold power2_eq_square)

lemma gray_after_black:
  "generate_unique_color (\<lambda>x. x) (to_rgb (\<lambda>x. x)) (\<lambda>p. (1 / 100, 1 / 100, 1 / 100)) pos
       (''#000000'' # es)
     = Inr (''#808080'', pos + 100)"
proof -
  have "attempt_loop (\<lambda>x. x) (to_rgb (\<lambda>x. x)) 100 (\<lambda>p. (1 / 100, 1 / 100, 1 / 100)) pos
        (''#000000'' # es)
      = Inr (fallback_gray, pos + 100)"
    by (rule attempts_all_close) (rule near_black)
  then show ?thesis
    by (simp add: generate_unique_color_def max_attempts_def fallback_gray_def)
qed

lemma gray_pool:
  "build_color_pool (\<lambda>x. x) (\<lambda>p. (1 / 100, 1 / 100, 1 / 100)) 4
     = Inr [''#000000'', ''#FFFFFF'', ''#808080'', ''#808080'']"
proof -
  have "pool_loop (\<lambda>x. x) (Suc (Suc 0)) (\<lambda>p. (1 / 100, 1 / 100, 1 / 100)) 0 [''#000000'', ''#FFFFFF'']
      = Inr ([''#000000'', ''#FFFFFF'', ''#808080'', ''#808080''], 200)"
    by (simp add: gray_after_black)
  moreover have "nat (4 - 2) = Suc (Suc 0)" by simp
  ultimately show ?thesis by (simp only: build_color_pool_def) simp
qed

text \<open>The claim as stated fails when the pool holds the same colour string twice. With
  4 sites, 4 colours and candidates that are all too close to black, both generated slots
  fall back to \<open>#808080\<close>; site 2 is given pool index 2, the cell \<open>(0, 0)\<close> is nearest to
  site 2, and \<open>color_grid[0][0]\<close> is 3, the last index of that string in the dictionary.\<close>

theorem C1_gray_pool_counterexample:
  "\<not> isl (generate_voronoi (\<lambda>x. x) gray_draws 4 4)
   \<and> color_pool (projr (generate_voronoi (\<lambda>x. x) gray_draws 4 4))
        = [''#000000'', ''#FFFFFF'', ''#808080'', ''#808080'']
   \<and> color_assignment 4 (min 4 4) (extra_colors gray_draws) (shuffle_perm gray_draws) = Inr [0, 1, 2, 3]
   \<and> index_grid (projr (generate_voronoi (\<lambda>x. x) gray_draws 4 4)) ! 0 ! 0 = 2
   \<and> color_grid (projr (generate_voronoi (\<lambda>x. x) gray_draws 4 4)) ! 0 ! 0 = 3"
proof -
  let ?pool = "[''#000000'', ''#FFFFFF'', ''#808080'', ''#808080'']"
  have ok: "draws_ok gray_draws 4 4"
    unfolding gray_draws_def by (rule draws_ok_fixed) (simp_all add: unit_rgb_def sample_ok_def)
  have ca: "color_assignment 4 (min 4 4) (extra_colors gray_draws) (shuffle_perm gray_draws)
      = Inr [0, 1, 2, 3]"
    by code_simp
  have bp: "build_color_pool (\<lambda>x. x) (color_draws gray_draws) (min 4 4) = Inr ?pool"
    using gray_pool by (simp add: gray_draws_def fixed_draws_def)
  have pts: "map (\<lambda>r. (fst (site_draws gray_draws r) * 10, snd (site_draws gray_draws r) * 10)) [0..<nat 4]
      = [(5, 5), (5, 5), (0, 0), (5, 5)]"
    by code_simp
  have cell: "classify_cell (\<lambda>x. x) [(5, 5), (5, 5), (0, 0), (5, 5)] (map (\<lambda>i. ?pool ! i) [0, 1, 2, 3])
      (color_to_index ?pool (min 4 4)) (0, 0) = Inr (2, 3)"
    by code_simp
  have "(0::nat) < grid_size" by (simp add: grid_size_def)
  then have gp: "grid_points (\<lambda>x. x) grid_size ! (0 * grid_size + 0) = (0, 0)"
    by (simp only: grid_points_nth linspace_exact) simp
  from generate_voronoi_at_spec[OF _ _ rounding_exact ok, of grid_size] obtain out a where
    g: "generate_voronoi_at (\<lambda>x. x) grid_size gray_draws 4 4 = Inr out"
    and ca': "color_assignment 4 (min 4 4) (extra_colors gray_draws) (shuffle_perm gray_draws) = Inr a"
    and bp': "build_color_pool (\<lambda>x. x) (color_draws gray_draws) (min 4 4) = Inr (color_pool out)"
    and po: "points out = map (\<lambda>r. (fst (site_draws gray_draws r) * 10, snd (site_draws gray_draws r) * 10)) [0..<nat 4]"
    and co: "colors out = map (\<lambda>i. color_pool out ! i) a"
    and cv: "\<forall>i<grid_size. \<forall>j<grid_size. classify_cell (\<lambda>x. x) (points out) (colors out)
              (color_to_index (color_pool out) (min 4 4)) (grid_points (\<lambda>x. x) grid_size ! (i * grid_size + j))
            = Inr (index_grid out ! i ! j, color_grid out ! i ! j)"
    by auto
  have a: "a = [0, 1, 2, 3]" using ca ca' by simp
  have p: "color_pool out = ?pool" using bp bp' by simp
  have "0 < grid_size" by (simp add: grid_size_def)
  then have "classify_cell (\<lambda>x. x) (points out) (colors out)
              (color_to_index (color_pool out) (min 4 4)) (grid_points (\<lambda>x. x) grid_size ! (0 * grid_size + 0))
            = Inr (index_grid out ! 0 ! 0, color_grid out ! 0 ! 0)"
    using cv by blast
  then have "Inr (index_grid out ! 0 ! 0, color_grid out ! 0 ! 0) = (Inr (2, 3) :: error + nat \<times> nat)"
    unfolding gp po pts co a p cell by simp
  then have v: "index_grid out ! 0 ! 0 = 2" "color_grid out ! 0 ! 0 = 3" by simp_all
  have r: "generate_voronoi (\<lambda>x. x) gray_draws 4 4 = Inr out" using g by (simp add: generate_voronoi_def)
  show ?thesis unfolding r using p ca v by simp
qed

text \<open>
  C8. For every \<open>N \<ge> 1\<close> and requested \<open>K \<ge> 1\<close> the cycle runs with \<open>min K N\<close> colours:
  that is the number of pool colours in use (\<open>color_pool[:num_colors]\<close>), every
  \<open>color_grid\<close> entry is below it, and the assignment is balanced with respect to it: every
  index below \<open>min K N\<close> occurs \<open>N div min K N\<close> times or once more, no other index occurs,
  and exactly \<open>N mod min K N\<close> indices occur once more. For \<open>N = 10\<close>, \<open>K = 20\<close> that is 10.
\<close>

theorem C8_effective_num_colors:
  assumes "1 \<le> N" "1 \<le> K" "rounding rnd" "draws_ok d N K"
  shows "\<exists>out a. generate_voronoi rnd d N K = Inr out
     \<and> num_colors out = min K N
     \<and> length (py_take (num_colors out) (color_pool out)) = nat (min K N)
     \<and> color_assignment N (min K N) (extra_colors d) (shuffle_perm d) = Inr a
     \<and> colors out = map (\<lambda>i. color_pool out ! i) a
     \<and> length a = nat N
     \<and> (\<forall>i<nat (min K N). count_list a i = nat (N div min K N)
                           \<or> count_list a i = nat (N div min K N) + 1)
     \<and> (\<forall>i. nat (min K N) \<le> i \<longrightarrow> count_list a i = 0)
     \<and> card {i. i < nat (min K N) \<and> count_list a i = nat (N div min K N) + 1} = nat (N mod min K N)
     \<and> (\<forall>i<grid_size. \<forall>j<grid_size. color_grid out ! i ! j < nat (min K N))"
proof -
  let ?K = "min K N"
  have K1: "1 \<le> ?K" using assms(1,2) by simp
  then have K0: "0 \<le> ?K" by simp
  from generate_voronoi_at_spec[OF assms, of grid_size] obtain out a E where
    g: "generate_voronoi_at rnd grid_size d N K = Inr out"
    and ca: "color_assignment N ?K (extra_colors d) (shuffle_perm d) = Inr a"
    and nc: "num_colors out = ?K"
    and lp: "length (color_pool out) = 2 + nat (?K - 2)"
    and co: "colors out = map (\<lambda>i. color_pool out ! i) a"
    and la: "length a = nat N"
    and cnt: "\<forall>i. count_list a i = (if i < nat ?K
            then nat (N div ?K) + (if i \<in> E then 1 else 0) else 0)"
    and cd': "card {i. i < nat ?K \<and> count_list a i = nat (N div ?K) + 1} = nat (N mod ?K)"
    and cv: "\<forall>i<grid_size. \<forall>j<grid_size. classify_cell rnd (points out) (colors out)
              (color_to_index (color_pool out) ?K) (grid_points rnd grid_size ! (i * grid_size + j))
            = Inr (index_grid out ! i ! j, color_grid out ! i ! j)"
    by blast
  have Kl: "nat ?K \<le> length (color_pool out)" using lp by simp
  have lt: "length (py_take (num_colors out) (color_pool out)) = nat ?K"
    using nc K0 Kl by (simp add: py_take_def)
  have cg: "color_grid out ! i ! j < nat ?K" if "i < grid_size" "j < grid_size" for i j
  proof -
    have "classify_cell rnd (points out) (colors out) (color_to_index (color_pool out) ?K)
        (grid_points rnd grid_size ! (i * grid_size + j)) = Inr (index_grid out ! i ! j, color_grid out ! i ! j)"
      using cv that by blast
    from color_to_index_Some[OF classify_cell_Inr(3)[OF this]] show ?thesis
      using lt nc by simp
  qed
  have r: "generate_voronoi rnd d N K = Inr out" using g by (simp add: generate_voronoi_def)
  have c1: "\<forall>i<nat ?K. count_list a i = nat (N div ?K) \<or> count_list a i = nat (N div ?K) + 1"
    using cnt by simp
  have c2: "\<forall>i. nat ?K \<le> i \<longrightarrow> count_list a i = 0" using cnt by simp
  have c3: "\<forall>i<grid_size. \<forall>j<grid_size. color_grid out ! i ! j < nat ?K" using cg by blast
  show ?thesis
    using r nc lt ca co la c1 c2 cd' c3 by blast
qed

theorem C8_effective_num_colors_witness:
  "rounding (\<lambda>x. x)
   \<and> draws_ok (fixed_draws (\<lambda>r. (real r / 10, 0)) (1 / 2, 1 / 2, 1 / 2) []) 10 20
   \<and> min (20::int) 10 = 10
   \<and> (\<exists>out. generate_voronoi (\<lambda>x. x) (fixed_draws (\<lambda>r. (real r / 10, 0)) (1 / 2, 1 / 2, 1 / 2) []) 10 20
           = Inr out
         \<and> num_colors out = 10 \<and> length (py_take (num_colors out) (color_pool out)) = 10
         \<and> length (colors out) = 10)"
proof -
  let ?d = "fixed_draws (\<lambda>r. (real r / 10, 0)) (1 / 2, 1 / 2, 1 / 2) []"
  have ok: "draws_ok ?d 10 20"
    by (rule draws_ok_fixed) (simp_all add: unit_rgb_def sample_ok_def)
  from C8_effective_num_colors[OF _ _ rounding_exact ok]
  obtain out a where "generate_voronoi (\<lambda>x. x) ?d 10 20 = Inr out" "num_colors out = min 20 10"
    "length (py_take (num_colors out) (color_pool out)) = nat (min 20 10)"
    "colors out = map (\<lambda>i. color_pool out ! i) a" "length a = nat 10"
    by auto
  then have "\<exists>out. generate_voronoi (\<lambda>x. x) ?d 10 20 = Inr out
         \<and> num_colors out = 10 \<and> length (py_take (num_colors out) (color_pool out)) = 10
         \<and> length (colors out) = 10"
    by (intro exI[of _ out]) simp
  with ok rounding_exact show ?thesis by simp
qed

lemma pool_small: "K \<le> 2 \<Longrightarrow> build_color_pool rnd rand K = Inr [''#000000'', ''#FFFFFF'']"
  by (simp add: build_color_pool_def)

lemma negative_points:
  "N < 0 \<Longrightarrow> generate_voronoi_at rnd G d N K = Inl ValueError"
  by (simp add: generate_voronoi_at_def)

lemma zero_colors:
  assumes "0 \<le> N" "min K N = 0"
  shows "generate_voronoi_at rnd G d N K = Inl ZeroDivisionError"
  using assms
  by (simp add: generate_voronoi_at_def Let_def pool_small assign_colors_def distribute_def)

lemma negative_colors_assignment:
  assumes "K < 0" "0 \<le> N" "perm_ok 0 (perm 0)"
  shows "assign_colors pool N K extra perm = Inr []"
proof -
  have "N mod K \<le> 0" using assms(1) by simp
  then have r: "\<not> 0 < N mod K" by simp
  have p: "perm 0 = []" using assms(3) by (simp add: perm_ok_def)
  show ?thesis
    using assms(1) r by (simp add: assign_colors_def distribute_def Let_def shuffle_def p)
qed

lemma negative_colors:
  assumes "1 \<le> N" "K < 0" "0 < G" "perm_ok 0 (shuffle_perm d 0)"
  shows "generate_voronoi_at rnd G d N K = Inl IndexError"
proof -
  let ?pts = "map (\<lambda>r. (rnd (fst (site_draws d r) * 10), rnd (snd (site_draws d r) * 10))) [0..<nat N]"
  have m: "min K N = K" using assms(1,2) by simp
  have ac: "assign_colors [''#000000'', ''#FFFFFF''] N K (extra_colors d) (shuffle_perm d) = Inr []"
    using negative_colors_assignment[of K N "shuffle_perm d"] assms by simp
  have c: "classify_cell rnd ?pts [] (color_to_index [''#000000'', ''#FFFFFF''] K) gp = Inl IndexError"
    for gp
  proof -
    have "sq_dists rnd ?pts gp \<noteq> []" using assms(1) by (simp add: sq_dists_def)
    from np_argmin_spec[OF this] obtain k where "np_argmin (sq_dists rnd ?pts gp) = Inr k" by blast
    then show ?thesis by (simp add: classify_cell_def)
  qed
  from classify_grid_fails[OF assms(3) c] show ?thesis
    using assms(1,2) ac by (simp add: generate_voronoi_at_def Let_def m pool_small)
qed

lemma no_points_negative_colors:
  assumes "N = 0" "K < 0" "0 < G" "perm_ok 0 (shuffle_perm d 0)"
  shows "generate_voronoi_at rnd G d N K = Inl ValueError"
proof -
  have m: "min K N = K" using assms(1,2) by simp
  have ac: "assign_colors [''#000000'', ''#FFFFFF''] N K (extra_colors d) (shuffle_perm d) = Inr []"
    using negative_colors_assignment[of K N "shuffle_perm d"] assms by simp
  have c: "classify_cell rnd [] [] (color_to_index [''#000000'', ''#FFFFFF''] K) gp = Inl ValueError"
    for gp
    by (simp add: classify_cell_def sq_dists_def np_argmin_def)
  from classify_grid_fails[OF assms(3) c] show ?thesis
    using assms(1,2) ac by (simp add: generate_voronoi_at_def Let_def m pool_small)
qed

text \<open>
  C9, as the code has it. \<open>generate_voronoi\<close> checks neither parameter and has no
  \<open>InvalidParameterError\<close>; the ranges are those of the two sliders. For all draws the
  random library can deliver: with \<open>N \<ge> 1\<close> and requested \<open>K \<ge> 1\<close> the call returns a diagram
  with \<open>min K N\<close> colours, whatever the ranges; it ends in an error exactly for \<open>N \<le> 0\<close> or
  \<open>K \<le> 0\<close>: a \<open>ValueError\<close> for \<open>N < 0\<close>, a \<open>ZeroDivisionError\<close> when \<open>min K N = 0\<close>, an
  \<open>IndexError\<close> for \<open>K < 0\<close> with \<open>N \<ge> 1\<close>, and a \<open>ValueError\<close> for \<open>K < 0\<close> with \<open>N = 0\<close>.
  The draws are constrained as the library constrains them: \<open>random.sample\<close> only where
  the code calls it, so every pair \<open>N\<close>, \<open>K\<close> has draws.
\<close>

theorem C9_no_parameter_validation:
  assumes "rounding rnd" "draws_ok d N K"
  shows "(1 \<le> N \<and> 1 \<le> K \<longrightarrow> (\<exists>out. generate_voronoi rnd d N K = Inr out \<and> num_colors out = min K N))
     \<and> (N < 0 \<longrightarrow> generate_voronoi rnd d N K = Inl ValueError)
     \<and> (0 \<le> N \<and> min K N = 0 \<longrightarrow> generate_voronoi rnd d N K = Inl ZeroDivisionError)
     \<and> (1 \<le> N \<and> K < 0 \<longrightarrow> generate_voronoi rnd d N K = Inl IndexError)
     \<and> (N = 0 \<and> K < 0 \<longrightarrow> generate_voronoi rnd d N K = Inl ValueError)"
proof -
  have p0: "perm_ok 0 (shuffle_perm d 0)" using assms(2) by (simp add: draws_ok_def)
  have g0: "0 < grid_size" by (simp add: grid_size_def)
  have 1: "\<exists>out. generate_voronoi rnd d N K = Inr out \<and> num_colors out = min K N"
    if "1 \<le> N" "1 \<le> K"
    using generate_voronoi_at_spec[OF that assms, of grid_size]
    by (auto simp: generate_voronoi_def)
  show ?thesis
    using 1 negative_points[of N rnd grid_size d K] zero_colors[of N K rnd grid_size d]
      negative_colors[OF _ _ g0 p0, of N K rnd] no_points_negative_colors[OF _ _ g0 p0, of N K rnd]
    by (simp add: generate_voronoi_def)
qed

lemma draws_ok_plain:
  assumes "min k n = 0 \<or> n mod min k n \<le> 0"
  shows "draws_ok (fixed_draws (\<lambda>r. (0, 0)) (1 / 2, 1 / 2, 1 / 2) []) n k"
  using assms by (intro draws_ok_fixed) (auto simp: unit_rgb_def)

text \<open>One call for each row: \<open>N = 1\<close>, \<open>K = 5\<close> returns with one colour; \<open>N = -2\<close> is a
  \<open>ValueError\<close>; \<open>N = 3\<close>, \<open>K = 0\<close> and \<open>N = 0\<close>, \<open>K = 5\<close> are a \<open>ZeroDivisionError\<close>;
  \<open>N = 3\<close>, \<open>K = -2\<close> is an \<open>IndexError\<close>; \<open>N = 0\<close>, \<open>K = -1\<close> is a \<open>ValueError\<close>.\<close>

theorem C9_no_parameter_validation_witness:
  "rounding (\<lambda>x. x)
   \<and> draws_ok (fixed_draws (\<lambda>r. (0, 0)) (1 / 2, 1 / 2, 1 / 2) []) 1 5
   \<and> (\<exists>out. generate_voronoi (\<lambda>x. x) (fixed_draws (\<lambda>r. (0, 0)) (1 / 2, 1 / 2, 1 / 2) []) 1 5 = Inr out
         \<and> num_colors out = 1)
   \<and> draws_ok (fixed_draws (\<lambda>r. (0, 0)) (1 / 2, 1 / 2, 1 / 2) []) (- 2) 5
   \<and> generate_voronoi (\<lambda>x. x) (fixed_draws (\<lambda>r. (0, 0)) (1 / 2, 1 / 2, 1 / 2) []) (- 2) 5 = Inl ValueError
   \<and> draws_ok (fixed_draws (\<lambda>r. (0, 0)) (1 / 2, 1 / 2, 1 / 2) []) 3 0
   \<and> generate_voronoi (\<lambda>x. x) (fixed_draws (\<lambda>r. (0, 0)) (1 / 2, 1 / 2, 1 / 2) []) 3 0 = Inl ZeroDivisionError
   \<and> draws_ok (fixed_draws (\<lambda>r. (0, 0)) (1 / 2, 1 / 2, 1 / 2) []) 0 5
   \<and> generate_voronoi (\<lambda>x. x) (fixed_draws (\<lambda>r. (0, 0)) (1 / 2, 1 / 2, 1 / 2) []) 0 5 = Inl ZeroDivisionError
   \<and> draws_ok (fixed_draws (\<lambda>r. (0, 0)) (1 / 2, 1 / 2, 1 / 2) []) 3 (- 2)
   \<and> generate_voronoi (\<lambda>x. x) (fixed_draws (\<lambda>r. (0, 0)) (1 / 2, 1 / 2, 1 / 2) []) 3 (- 2) = Inl IndexError
   \<and> draws_ok (fixed_draws (\<lambda>r. (0, 0)) (1 / 2, 1 / 2, 1 / 2) []) 0 (- 1)
   \<and> generate_voronoi (\<lambda>x. x) (fixed_draws (\<lambda>r. (0, 0)) (1 / 2, 1 / 2, 1 / 2) []) 0 (- 1) = Inl ValueError"
proof -
  let ?d = "fixed_draws (\<lambda>r. (0, 0)) (1 / 2, 1 / 2, 1 / 2) []"
  have ok1: "draws_ok ?d 1 5" by (rule draws_ok_plain) simp
  have ok2: "draws_ok ?d (- 2) 5" by (rule draws_ok_plain) simp
  have ok3: "draws_ok ?d 3 0" by (rule draws_ok_plain) simp
  have ok4: "draws_ok ?d 0 5" by (rule draws_ok_plain) simp
  have ok5: "draws_ok ?d 3 (- 2)" by (rule draws_ok_plain) simp
  have ok6: "draws_ok ?d 0 (- 1)" by (rule draws_ok_plain) simp
  have a: "\<exists>out. generate_voronoi (\<lambda>x. x) ?d 1 5 = Inr out \<and> num_colors out = 1"
    using C9_no_parameter_validation[OF rounding_exact ok1] by simp
  have b: "generate_voronoi (\<lambda>x. x) ?d (- 2) 5 = Inl ValueError"
    using C9_no_parameter_validation[OF rounding_exact ok2] by simp
  have c: "generate_voronoi (\<lambda>x. x) ?d 3 0 = Inl ZeroDivisionError"
    using C9_no_parameter_validation[OF rounding_exact ok3] by simp
  have d: "generate_voronoi (\<lambda>x. x) ?d 0 5 = Inl ZeroDivisionError"
    using C9_no_parameter_validation[OF rounding_exact ok4] by simp
  have e: "generate_voronoi (\<lambda>x. x) ?d 3 (- 2) = Inl IndexError"
    using C9_no_parameter_validation[OF rounding_exact ok5] by simp
  have f: "generate_voronoi (\<lambda>x. x) ?d 0 (- 1) = Inl ValueError"
    using C9_no_parameter_validation[OF rounding_exact ok6] by simp
  show ?thesis using rounding_exact ok1 ok2 ok3 ok4 ok5 ok6 a b c d e f by blast
qed

text \<open>The claim as stated fails: with \<open>N = 1\<close>, with \<open>N = 101\<close>, and with \<open>N = 30\<close>, \<open>K = 25\<close>
  (effective \<open>K = 25\<close>) the call returns a diagram instead of raising.\<close>

theorem C9_out_of_range_counterexample:
  "\<not> isl (generate_voronoi (\<lambda>x. x) (fixed_draws (\<lambda>r. (0, 0)) (1 / 2, 1 / 2, 1 / 2) []) 1 5)
   \<and> \<not> isl (generate_voronoi (\<lambda>x. x) (fixed_draws (\<lambda>r. (0, 0)) (1 / 2, 1 / 2, 1 / 2) [0]) 101 2)
   \<and> \<not> isl (generate_voronoi (\<lambda>x. x) (fixed_draws (\<lambda>r. (0, 0)) (1 / 2, 1 / 2, 1 / 2) [0, 1, 2, 3, 4]) 30 25)"
proof -
  have 1: "draws_ok (fixed_draws (\<lambda>r. (0, 0)) (1 / 2, 1 / 2, 1 / 2) []) 1 5"
    by (rule draws_ok_fixed) (simp_all add: unit_rgb_def sample_ok_def)
  have 2: "draws_ok (fixed_draws (\<lambda>r. (0, 0)) (1 / 2, 1 / 2, 1 / 2) [0]) 101 2"
    by (rule draws_ok_fixed) (simp_all add: unit_rgb_def sample_ok_def)
  have 3: "draws_ok (fixed_draws (\<lambda>r. (0, 0)) (1 / 2, 1 / 2, 1 / 2) [0, 1, 2, 3, 4]) 30 25"
    by (rule draws_ok_fixed) (simp_all add: unit_rgb_def sample_ok_def)
  show ?thesis
    using generate_voronoi_at_spec[OF _ _ rounding_exact 1, of grid_size]
      generate_voronoi_at_spec[OF _ _ rounding_exact 2, of grid_size]
      generate_voronoi_at_spec[OF _ _ rounding_exact 3, of grid_size]
    by (auto simp: generate_voronoi_def)
qed

end
